theory Spec2Isabelle
  imports Main
begin

section \<open>Python text\<close>

text \<open>
  A Python \<open>str\<close> is a sequence of Unicode code points; the script reads every file in
  text mode, so contents, patterns and paths are lists of code points. Literals of the
  script are written as Isabelle strings and converted with \<open>str\<close>.
\<close>

type_synonym pystr = "nat list"

definition str :: "string \<Rightarrow> pystr" where
  "str = map of_char"

text \<open>
  The code points for which \<open>\s\<close> matches in a \<open>str\<close> pattern (those with
  \<open>str.isspace()\<close> true): TAB..CR, FS..US and SPACE, NEL, NBSP, and the Unicode
  space separators.
\<close>

definition is_space :: "nat \<Rightarrow> bool" where
  "is_space c \<longleftrightarrow>
     (9 \<le> c \<and> c \<le> 13) \<or> (28 \<le> c \<and> c \<le> 32) \<or> c = 133 \<or> c = 160 \<or> c = 5760 \<or>
     (8192 \<le> c \<and> c \<le> 8202) \<or> c = 8232 \<or> c = 8233 \<or> c = 8239 \<or> c = 8287 \<or> c = 12288"

section \<open>The regular-expression fragment of the two patterns\<close>

text \<open>
  Both patterns are a sequence of literal text, \<open>\s*\<close>, \<open>\s+\<close>, \<open>[^}]+\<close> and one
  capturing group. \<open>GOpen\<close> and \<open>GClose\<close> are the parentheses of group 1.
\<close>

datatype cclass = Space | NotIn pystr

fun in_class :: "cclass \<Rightarrow> nat \<Rightarrow> bool" where
  "in_class Space c = is_space c"
| "in_class (NotIn cs) c = (c \<notin> set cs)"

datatype item = Lits pystr | Star cclass | Plus cclass | GOpen | GClose

type_synonym regex = "item list"

text \<open>The offsets, from the start of the match, at which the parentheses of group 1 were passed.\<close>

type_synonym marks = "nat option \<times> nat option"

fun strip_prefix :: "pystr \<Rightarrow> pystr \<Rightarrow> pystr option" where
  "strip_prefix [] s = Some s"
| "strip_prefix (c # l) [] = None"
| "strip_prefix (c # l) (x # s) = (if x = c then strip_prefix l s else None)"

text \<open>
  The backtracking matcher, anchored at the head of the input: a greedy repetition first
  takes one more character and, when the rest of the pattern then fails, gives it back.
  \<open>n\<close> counts the characters consumed so far; the result is the marks and the input
  left after the match.
\<close>

fun match_items :: "regex \<Rightarrow> marks \<Rightarrow> nat \<Rightarrow> pystr \<Rightarrow> (marks \<times> pystr) option" where
  "match_items [] mk n s = Some (mk, s)"
| "match_items (Lits l # p) mk n s =
     (case strip_prefix l s of
        None \<Rightarrow> None
      | Some s' \<Rightarrow> match_items p mk (n + length l) s')"
| "match_items (Star k # p) mk n [] = match_items p mk n []"
| "match_items (Star k # p) mk n (x # xs) =
     (if in_class k x
      then (case match_items (Star k # p) mk (Suc n) xs of
              Some r \<Rightarrow> Some r
            | None \<Rightarrow> match_items p mk n (x # xs))
      else match_items p mk n (x # xs))"
| "match_items (Plus k # p) mk n [] = None"
| "match_items (Plus k # p) mk n (x # xs) =
     (if in_class k x then match_items (Star k # p) mk (Suc n) xs else None)"
| "match_items (GOpen # p) mk n s = match_items p (Some n, snd mk) n s"
| "match_items (GClose # p) mk n s = match_items p (fst mk, Some n) n s"

text \<open>The text of group 1; a group that did not take part in the match is empty.\<close>

definition group1 :: "marks \<Rightarrow> pystr \<Rightarrow> pystr" where
  "group1 mk s = (case mk of
       (Some a, Some b) \<Rightarrow> take (b - a) (drop a s)
     | _ \<Rightarrow> [])"

text \<open>One match attempt at the head of \<open>s\<close>: the text of group 1 and the input after the match.\<close>

definition re_match :: "regex \<Rightarrow> pystr \<Rightarrow> (pystr \<times> pystr) option" where
  "re_match p s = (case match_items p (None, None) 0 s of
       None \<Rightarrow> None
     | Some (mk, r) \<Rightarrow> Some (group1 mk s, r))"

text \<open>A replacement template: literal text and references \<open>\1\<close> to group 1.\<close>

datatype tpart = G1 | T pystr

type_synonym template = "tpart list"

fun expand :: "template \<Rightarrow> pystr \<Rightarrow> pystr" where
  "expand [] g = []"
| "expand (G1 # t) g = g @ expand t g"
| "expand (T l # t) g = l @ expand t g"

text \<open>
  \<open>re.sub\<close>: scan from the left; where the pattern matches, emit the expanded template
  and continue after the match, otherwise copy one character. The last branch is an empty
  match, which neither pattern of the script can produce.
\<close>

function re_sub :: "regex \<Rightarrow> template \<Rightarrow> pystr \<Rightarrow> pystr" where
  "re_sub p t [] = (case re_match p [] of None \<Rightarrow> [] | Some (g, r) \<Rightarrow> expand t g)"
| "re_sub p t (c # cs) =
     (case re_match p (c # cs) of
        None \<Rightarrow> c # re_sub p t cs
      | Some (g, r) \<Rightarrow>
          if length r < length (c # cs) then expand t g @ re_sub p t r
          else expand t g @ c # re_sub p t cs)"
  by pat_completeness auto
termination
  by (relation "measure (\<lambda>(p, t, s). length s)") auto

section \<open>The script\<close>

definition old_pattern :: regex where
  \<open>old_pattern =
    [GOpen, Plus Space, GClose, Lits (str ''match env_result {''),
     Star Space, Lits (str ''Ok(env) => {''), Plus (NotIn (str ''}'')), Lits (str ''}''),
     Star Space, Lits (str ''Err(e) => {''),
     Star Space, Lits (str ''match e {''),
     Star Space, Lits (str ''SzError::Configuration { .. } => {''),
     Star Space, Lits (str ''// Expected for singleton architecture''),
     Star Space, Lits (str ''}''),
     Star Space, Lits (str ''_ => {''),
     Star Space,
     Lits (str ''eprintln!("Environment initialization failed (may be acceptable): {:?}", e);''),
     Star Space, Lits (str ''}''),
     Star Space, Lits (str ''}''),
     Star Space, Lits (str ''}''),
     Star Space, Lits (str ''}'')]\<close>

definition new_pattern :: template where
  \<open>new_pattern =
    [G1, T (str ''match env_result {\<newline>''),
     G1, T (str ''    Ok(env) => {\<newline>''),
     G1, T (str ''        // Test that environment is available for testing\<newline>''),
     G1, T (str ''        eprintln!("Environment available for testing");\<newline>''),
     G1, T (str ''\<newline>''),
     G1, T (str ''        // Can test read-only operations like:\<newline>''),
     G1, T (str ''        let _is_destroyed = env.is_destroyed();\<newline>''),
     G1, T (str ''        let _active_config_result = env.get_active_config_id();\<newline>''),
     G1, T (str ''    }\<newline>''),
     G1, T (str ''    Err(e) => {\<newline>''),
     G1, T (str ''        // With proper synchronization, initialization should succeed\<newline>''),
     G1, T (str ''        // Any initialization failure is now a test failure\<newline>''),
     G1, T (str ''        return Err(e);\<newline>''),
     G1, T (str ''    }\<newline>''),
     G1, T (str ''}'')]\<close>

definition engine_old_pattern :: regex where
  \<open>engine_old_pattern =
    [GOpen, Plus Space, GClose, Lits (str ''match engine_result {''),
     Star Space, Lits (str ''Ok(engine) => {''), Plus (NotIn (str ''}'')), Lits (str ''}''),
     Star Space, Lits (str ''Err(e) => {''),
     Star Space, Lits (str ''match e {''),
     Star Space, Lits (str ''SzError::Configuration { .. } => {''),
     Star Space, Lits (str ''// Expected for singleton architecture''),
     Star Space, Lits (str ''}''),
     Star Space, Lits (str ''_ => {''),
     Star Space,
     Lits (str ''eprintln!("Engine setup failed (may be acceptable): {:?}", e);''),
     Star Space, Lits (str ''}''),
     Star Space, Lits (str ''}''),
     Star Space, Lits (str ''}''),
     Star Space, Lits (str ''}'')]\<close>

definition engine_new_pattern :: template where
  \<open>engine_new_pattern =
    [G1, T (str ''match engine_result {\<newline>''),
     G1, T (str ''    Ok(engine) => {\<newline>''),
     G1, T (str ''        // Engine is available for testing\<newline>''),
     G1, T (str ''        eprintln!("Engine available for testing");\<newline>''),
     G1, T (str ''    }\<newline>''),
     G1, T (str ''    Err(e) => {\<newline>''),
     G1, T (str ''        // With proper synchronization, engine setup should succeed\<newline>''),
     G1, T (str ''        // Any engine setup failure is now a test failure\<newline>''),
     G1, T (str ''        return Err(e);\<newline>''),
     G1, T (str ''    }\<newline>''),
     G1, T (str ''}'')]\<close>

text \<open>The two substitutions of \<open>fix_test_file\<close>, in the order the script applies them.\<close>

definition rule_a :: "pystr \<Rightarrow> pystr" where
  "rule_a content = re_sub old_pattern new_pattern content"

definition rule_b :: "pystr \<Rightarrow> pystr" where
  "rule_b content = re_sub engine_old_pattern engine_new_pattern content"

definition fix_content :: "pystr \<Rightarrow> pystr" where
  "fix_content content = rule_b (rule_a content)"

subsection \<open>Files and console\<close>

text \<open>
  The world of the script: the text each readable file yields, the paths that cannot be
  opened for writing, the names \<open>os.listdir\<close> returns for the directory \<open>tests\<close> (\<open>None\<close>
  when it cannot be listed), the characters printed so far and the paths written so far.
\<close>

datatype py_error = OSError

record world =
  files :: "pystr \<rightharpoonup> pystr"
  readonly :: "pystr list"
  listing :: "pystr list option"
  stdout :: pystr
  written :: "pystr list"

definition read_file :: "world \<Rightarrow> pystr \<Rightarrow> py_error + pystr" where
  "read_file w path = (case files w path of None \<Rightarrow> Inl OSError | Some c \<Rightarrow> Inr c)"

definition write_file :: "world \<Rightarrow> pystr \<Rightarrow> pystr \<Rightarrow> py_error + world" where
  "write_file w path c =
     (if path \<in> set (readonly w) then Inl OSError
      else Inr (w\<lparr>files := (files w)(path \<mapsto> c), written := written w @ [path]\<rparr>))"

definition print :: "world \<Rightarrow> pystr \<Rightarrow> world" where
  "print w line = w\<lparr>stdout := stdout w @ line @ [10]\<rparr>"

definition fix_test_file :: "world \<Rightarrow> pystr \<Rightarrow> py_error + (bool \<times> world)" where
  "fix_test_file w file_path =
     (case read_file w file_path of
        Inl e \<Rightarrow> Inl e
      | Inr content0 \<Rightarrow>
          let content1 = re_sub old_pattern new_pattern content0;
              content = re_sub engine_old_pattern engine_new_pattern content1
          in (case read_file w file_path of
                Inl e \<Rightarrow> Inl e
              | Inr original_content \<Rightarrow>
                  if content \<noteq> original_content
                  then (case write_file w file_path content of
                          Inl e \<Rightarrow> Inl e
                        | Inr w' \<Rightarrow> Inr (True, print w' (str ''Fixed: '' @ file_path)))
                  else Inr (False, print w (str ''No changes needed: '' @ file_path))))"

definition endswith :: "pystr \<Rightarrow> pystr \<Rightarrow> bool" where
  "endswith s suffix \<longleftrightarrow> length suffix \<le> length s \<and> drop (length s - length suffix) s = suffix"

text \<open>\<open>os.path.join\<close> of two components on a POSIX system.\<close>

definition path_join :: "pystr \<Rightarrow> pystr \<Rightarrow> pystr" where
  "path_join a b =
     (if b \<noteq> [] \<and> hd b = 47 then b
      else if a = [] \<or> last a = 47 then a @ b
      else a @ [47] @ b)"

text \<open>The decimal digits of the counter, as the f-string formats it.\<close>

fun show_nat :: "nat \<Rightarrow> pystr" where
  "show_nat n = (if n < 10 then [48 + n] else show_nat (n div 10) @ [48 + n mod 10])"

declare show_nat.simps [simp del]

fun main_loop :: "pystr list \<Rightarrow> nat \<Rightarrow> world \<Rightarrow> py_error + (nat \<times> world)" where
  "main_loop [] fixed_count w = Inr (fixed_count, w)"
| "main_loop (filename # rest) fixed_count w =
     (if endswith filename (str ''.rs'')
      then (case fix_test_file w (path_join (str ''tests'') filename) of
              Inl e \<Rightarrow> Inl e
            | Inr (fixed, w') \<Rightarrow>
                main_loop rest (if fixed then fixed_count + 1 else fixed_count) w')
      else main_loop rest fixed_count w)"

definition main :: "world \<Rightarrow> py_error + world" where
  "main w =
     (case listing w of
        None \<Rightarrow> Inl OSError
      | Some names \<Rightarrow>
          (case main_loop names 0 w of
             Inl e \<Rightarrow> Inl e
           | Inr (fixed_count, w') \<Rightarrow>
               Inr (print w' (str ''\<newline>Fixed '' @ show_nat fixed_count @ str '' test files''))))"

text \<open>Some match attempt of the scan succeeds: the pattern occurs in the text.\<close>

fun occurs :: "regex \<Rightarrow> pystr \<Rightarrow> bool" where
  "occurs p [] = (re_match p [] \<noteq> None)"
| "occurs p (c # s) = (re_match p (c # s) \<noteq> None \<or> occurs p s)"

section \<open>Auxiliary notions for the proofs\<close>

text \<open>The matcher without the bookkeeping of marks: only the input left after the match.\<close>

fun rest_after :: "regex \<Rightarrow> pystr \<Rightarrow> pystr option" where
  "rest_after [] s = Some s"
| "rest_after (Lits l # p) s =
     (case strip_prefix l s of None \<Rightarrow> None | Some s' \<Rightarrow> rest_after p s')"
| "rest_after (Star k # p) [] = rest_after p []"
| "rest_after (Star k # p) (x # xs) =
     (if in_class k x
      then (case rest_after (Star k # p) xs of
              Some r \<Rightarrow> Some r
            | None \<Rightarrow> rest_after p (x # xs))
      else rest_after p (x # xs))"
| "rest_after (Plus k # p) [] = None"
| "rest_after (Plus k # p) (x # xs) =
     (if in_class k x then rest_after (Star k # p) xs else None)"
| "rest_after (GOpen # p) s = rest_after p s"
| "rest_after (GClose # p) s = rest_after p s"

text \<open>The first character a pattern must read, when it begins with literal text.\<close>

fun first_lit :: "regex \<Rightarrow> nat option" where
  "first_lit (Lits (c # l) # p) = Some c"
| "first_lit (GOpen # p) = first_lit p"
| "first_lit (GClose # p) = first_lit p"
| "first_lit p = None"

text \<open>
  A repetition is closed when the pattern continues with a literal character outside its
  class: the repetition then has to take the whole run, and backtracking into it fails.
\<close>

definition closed_by :: "cclass \<Rightarrow> regex \<Rightarrow> bool" where
  "closed_by k p = (case first_lit p of None \<Rightarrow> False | Some c \<Rightarrow> \<not> in_class k c)"

fun det :: "regex \<Rightarrow> bool" where
  "det [] = True"
| "det (Star k # p) = (closed_by k p \<and> det p)"
| "det (Plus k # p) = (closed_by k p \<and> det p)"
| "det (Lits l # p) = det p"
| "det (GOpen # p) = det p"
| "det (GClose # p) = det p"

text \<open>The non-empty suffixes of a list.\<close>

fun tails :: "'a list \<Rightarrow> 'a list list" where
  "tails [] = []"
| "tails (x # xs) = (x # xs) # tails xs"

text \<open>The patterns that can remain to be matched when a match is cut inside its text.\<close>

fun states :: "regex \<Rightarrow> regex list" where
  "states [] = []"
| "states (Lits l # p) = map (\<lambda>l'. Lits l' # p) (tails l) @ states p"
| "states (Star k # p) = (Star k # p) # states p"
| "states (Plus k # p) = (Plus k # p) # (Star k # p) # states p"
| "states (GOpen # p) = states p"
| "states (GClose # p) = states p"

text \<open>No match of the pattern starts anywhere in the text.\<close>

fun nomatch :: "regex \<Rightarrow> pystr \<Rightarrow> bool" where
  "nomatch p [] = (rest_after p [] = None)"
| "nomatch p (c # s) = (rest_after p (c # s) = None \<and> nomatch p s)"

text \<open>No match of the pattern starts inside \<open>a\<close> when \<open>a\<close> is followed by \<open>rest\<close>.\<close>

fun free_on :: "regex \<Rightarrow> pystr \<Rightarrow> pystr \<Rightarrow> bool" where
  "free_on p [] rest = True"
| "free_on p (c # a) rest = (rest_after p (c # a @ rest) = None \<and> free_on p a rest)"

text \<open>No match of the pattern that began earlier continues into \<open>R\<close>.\<close>

definition barrier :: "regex \<Rightarrow> pystr \<Rightarrow> bool" where
  "barrier p R \<longleftrightarrow> (\<forall>q \<in> set (states p). \<forall>rest. rest_after q (R @ rest) = None)"

text \<open>
  The shape both patterns share: group 1 around \<open>\s+\<close>, then a body without groups in
  which every repetition is closed and that begins with a character other than white space.
\<close>

fun nomarks :: "regex \<Rightarrow> bool" where
  "nomarks [] = True"
| "nomarks (GOpen # p) = False"
| "nomarks (GClose # p) = False"
| "nomarks (x # p) = nomarks p"

definition headed :: "regex \<Rightarrow> bool" where
  "headed p \<longleftrightarrow>
     (\<exists>body c. p = GOpen # Plus Space # GClose # body \<and> nomarks body \<and> det body \<and>
        first_lit body = Some c \<and> \<not> is_space c)"

definition white :: "pystr \<Rightarrow> bool" where
  "white g \<longleftrightarrow> g \<noteq> [] \<and> list_all is_space g"

text \<open>Every expansion of the template stops the pattern, from the left and from inside.\<close>

definition blocks :: "regex \<Rightarrow> template \<Rightarrow> bool" where
  "blocks p t \<longleftrightarrow>
     (\<forall>g. white g \<longrightarrow> barrier p (expand t g) \<and> (\<forall>rest. free_on p (expand t g) rest))"

subsection \<open>A static check that a pattern cannot match a described text\<close>

text \<open>The texts a pattern describes.\<close>

fun inlang :: "regex \<Rightarrow> pystr \<Rightarrow> bool" where
  "inlang [] m \<longleftrightarrow> m = []"
| "inlang (Lits l # p) m \<longleftrightarrow> (\<exists>m'. m = l @ m' \<and> inlang p m')"
| "inlang (Star k # p) m \<longleftrightarrow> (\<exists>w m'. m = w @ m' \<and> list_all (in_class k) w \<and> inlang p m')"
| "inlang (Plus k # p) m \<longleftrightarrow>
     (\<exists>w m'. m = w @ m' \<and> w \<noteq> [] \<and> list_all (in_class k) w \<and> inlang p m')"
| "inlang (GOpen # p) m \<longleftrightarrow> inlang p m"
| "inlang (GClose # p) m \<longleftrightarrow> inlang p m"

fun wt :: "item \<Rightarrow> nat" where
  "wt (Lits l) = Suc (length l)"
| "wt (Star k) = 1"
| "wt (Plus k) = 2"
| "wt GOpen = 1"
| "wt GClose = 1"

text \<open>
  A static check: \<open>fails q d\<close> guarantees that the pattern \<open>q\<close> matches no text that begins
  with a text described by \<open>d\<close>, whatever follows it.
\<close>

function fails :: "regex \<Rightarrow> regex \<Rightarrow> bool" where
  "fails [] d = False"
| "fails (GOpen # q) d = fails q d"
| "fails (GClose # q) d = fails q d"
| "fails (Lits [] # q) d = fails q d"
| "fails (Lits (a # l) # q) [] = False"
| "fails (Lits (a # l) # q) (GOpen # d) = fails (Lits (a # l) # q) d"
| "fails (Lits (a # l) # q) (GClose # d) = fails (Lits (a # l) # q) d"
| "fails (Lits (a # l) # q) (Lits [] # d) = fails (Lits (a # l) # q) d"
| "fails (Lits (a # l) # q) (Lits (b # m) # d) =
     (if a = b then fails (Lits l # q) (Lits m # d) else True)"
| "fails (Lits (a # l) # q) (Star k2 # d) =
     (fails (Lits (a # l) # q) d \<and>
      (if in_class k2 a then fails (Lits l # q) (Star k2 # d) else True))"
| "fails (Lits (a # l) # q) (Plus k2 # d) =
     (if in_class k2 a then fails (Lits l # q) (Star k2 # d) else True)"
| "fails (Star k # q) [] = False"
| "fails (Star k # q) (GOpen # d) = fails (Star k # q) d"
| "fails (Star k # q) (GClose # d) = fails (Star k # q) d"
| "fails (Star k # q) (Lits [] # d) = fails (Star k # q) d"
| "fails (Star k # q) (Lits (b # m) # d) =
     (if in_class k b
      then fails (Star k # q) (Lits m # d) \<and> fails q (Lits (b # m) # d)
      else fails q (Lits (b # m) # d))"
| "fails (Star k # q) (Star k2 # d) = (fails q (Star k2 # d) \<and> fails (Star k # q) d)"
| "fails (Star k # q) (Plus k2 # d) = (fails q (Star k2 # d) \<and> fails (Star k # q) d)"
| "fails (Plus k # q) [] = False"
| "fails (Plus k # q) (GOpen # d) = fails (Plus k # q) d"
| "fails (Plus k # q) (GClose # d) = fails (Plus k # q) d"
| "fails (Plus k # q) (Lits [] # d) = fails (Plus k # q) d"
| "fails (Plus k # q) (Lits (b # m) # d) =
     (if in_class k b then fails (Star k # q) (Lits m # d) else True)"
| "fails (Plus k # q) (Star k2 # d) = (fails (Plus k # q) d \<and> fails (Star k # q) (Star k2 # d))"
| "fails (Plus k # q) (Plus k2 # d) = fails (Star k # q) (Star k2 # d)"
  by pat_completeness auto
termination
  by (relation "measure (\<lambda>(q, d). sum_list (map wt q) + sum_list (map wt d))") auto

text \<open>The description of the expansions of a template: group 1 is a run of white space.\<close>

fun desc :: "template \<Rightarrow> regex" where
  "desc [] = []"
| "desc (G1 # t) = Plus Space # desc t"
| "desc (T l # t) = Lits l # desc t"

text \<open>Every state of \<open>p\<close> fails on \<open>d\<close>; every state of \<open>d\<close> makes \<open>p\<close> fail.\<close>

fun lits_fail :: "pystr \<Rightarrow> regex \<Rightarrow> regex \<Rightarrow> bool" where
  "lits_fail [] p d = True"
| "lits_fail (c # l) p d = (fails (Lits (c # l) # p) d \<and> lits_fail l p d)"

fun all_fail :: "regex \<Rightarrow> regex \<Rightarrow> bool" where
  "all_fail [] d = True"
| "all_fail (Lits l # p) d = (lits_fail l p d \<and> all_fail p d)"
| "all_fail (Star k # p) d = (fails (Star k # p) d \<and> all_fail p d)"
| "all_fail (Plus k # p) d = (fails (Plus k # p) d \<and> fails (Star k # p) d \<and> all_fail p d)"
| "all_fail (GOpen # p) d = all_fail p d"
| "all_fail (GClose # p) d = all_fail p d"

fun fail_lits :: "regex \<Rightarrow> pystr \<Rightarrow> regex \<Rightarrow> bool" where
  "fail_lits p [] d = True"
| "fail_lits p (c # l) d = (fails p (Lits (c # l) # d) \<and> fail_lits p l d)"

fun fail_all :: "regex \<Rightarrow> regex \<Rightarrow> bool" where
  "fail_all p [] = True"
| "fail_all p (Lits l # d) = (fail_lits p l d \<and> fail_all p d)"
| "fail_all p (Star k # d) = (fails p (Star k # d) \<and> fail_all p d)"
| "fail_all p (Plus k # d) = (fails p (Plus k # d) \<and> fails p (Star k # d) \<and> fail_all p d)"
| "fail_all p (GOpen # d) = fail_all p d"
| "fail_all p (GClose # d) = fail_all p d"

subsection \<open>Segments of a rewritten text\<close>

text \<open>
  A text cut into pieces that are kept and pieces that one of the rules replaces; a
  replaced piece is, on its own, a match of the rule's pattern with the given group.
\<close>

datatype seg = Keep pystr | HitA pystr pystr | HitB pystr pystr

fun seg_src :: "seg \<Rightarrow> pystr" where
  "seg_src (Keep k) = k"
| "seg_src (HitA g m) = m"
| "seg_src (HitB g m) = m"

fun seg_out :: "seg \<Rightarrow> pystr" where
  "seg_out (Keep k) = k"
| "seg_out (HitA g m) = expand new_pattern g"
| "seg_out (HitB g m) = expand engine_new_pattern g"

fun seg_ok :: "seg \<Rightarrow> bool" where
  "seg_ok (Keep k) = True"
| "seg_ok (HitA g m) = (re_match old_pattern m = Some (g, []))"
| "seg_ok (HitB g m) = (re_match engine_old_pattern m = Some (g, []))"

subsection \<open>What a run reports\<close>

text \<open>Whether the content of a directory entry differs after both rules, and the line printed for it.\<close>

definition changed :: "world \<Rightarrow> pystr \<Rightarrow> bool" where
  "changed w filename \<longleftrightarrow>
     (case files w (path_join (str ''tests'') filename) of
        Some c \<Rightarrow> fix_content c \<noteq> c
      | None \<Rightarrow> False)"

definition report :: "world \<Rightarrow> pystr \<Rightarrow> pystr" where
  "report w filename =
     (if changed w filename then str ''Fixed: '' else str ''No changes needed: '') @
     path_join (str ''tests'') filename @ [10]"

subsection \<open>Lines of a text\<close>

text \<open>The lines of a text, separated by line feeds, as \<open>str.split('\n')\<close> gives them.\<close>

fun split_lines :: "pystr \<Rightarrow> pystr list" where
  "split_lines [] = [] # []"
| "split_lines (c # s) =
     (if c = 10 then [] # split_lines s
      else (case split_lines s of [] \<Rightarrow> [c] # [] | l # ls \<Rightarrow> (c # l) # ls))"

definition starts_with :: "pystr \<Rightarrow> pystr \<Rightarrow> bool" where
  "starts_with prefix l \<longleftrightarrow> take (length prefix) l = prefix"

text \<open>
  A template of lines: every line is a reference to group 1 and text without a line feed,
  and all lines but the last end with one line feed.
\<close>

fun line_shaped :: "template \<Rightarrow> bool" where
  "line_shaped [G1, T l] = (10 \<notin> set l)"
| "line_shaped (G1 # T l # t) = (l \<noteq> [] \<and> last l = 10 \<and> 10 \<notin> set (butlast l) \<and> line_shaped t)"
| "line_shaped t = False"

section \<open>Sample data\<close>

text \<open>Texts and worlds on which the theorems below are exercised.\<close>

definition sample_a :: pystr where
  \<open>sample_a = str ''\<newline>  match env_result { Ok(env) => { x } Err(e) => { match e { SzError::Configuration { .. } => { // Expected for singleton architecture } _ => { eprintln!("Environment initialization failed (may be acceptable): {:?}", e); } } } }''\<close>

definition sample_b :: pystr where
  \<open>sample_b = str '' match engine_result { Ok(engine) => { x } Err(e) => { match e { SzError::Configuration { .. } => { // Expected for singleton architecture } _ => { eprintln!("Engine setup failed (may be acceptable): {:?}", e); } } } }''\<close>

definition sample_plain :: pystr where
  "sample_plain = str ''fn main() { }''"

definition world_plain :: world where
  "world_plain = \<lparr>files = [str ''tests/plain.rs'' \<mapsto> sample_plain], readonly = [],
     listing = Some [str ''plain.rs''], stdout = [], written = []\<rparr>"

definition world_a :: world where
  "world_a = \<lparr>files = [str ''tests/a.rs'' \<mapsto> sample_a], readonly = [],
     listing = Some [str ''a.rs''], stdout = [], written = []\<rparr>"

definition world_dir :: world where
  "world_dir = \<lparr>files = [str ''tests/a.rs'' \<mapsto> sample_a, str ''tests/notes.txt'' \<mapsto> sample_a,
       str ''tests/plain.rs'' \<mapsto> sample_plain],
     readonly = [], listing = Some [str ''a.rs'', str ''notes.txt'', str ''plain.rs''],
     stdout = [], written = []\<rparr>"

definition sample_bare :: pystr where
  \<open>sample_bare = str ''match env_result { Ok(env) => { x } Err(e) => { match e { SzError::Configuration { .. } => { // Expected for singleton architecture } _ => { eprintln!("Environment initialization failed (may be acceptable): {:?}", e); } } } }''\<close>

definition sample_own_line :: pystr where
  \<open>sample_own_line = str ''\<newline>        match env_result { Ok(env) => { x } Err(e) => { match e { SzError::Configuration { .. } => { // Expected for singleton architecture } _ => { eprintln!("Environment initialization failed (may be acceptable): {:?}", e); } } } }''\<close>

section \<open>Properties of the matcher\<close>

lemma strip_prefix_Some: "strip_prefix l s = Some r \<longleftrightarrow> s = l @ r"
  by (induction l s rule: strip_prefix.induct) auto

lemma strip_prefix_append [simp]: "strip_prefix l (l @ r) = Some r"
  by (simp add: strip_prefix_Some)

lemma rest_after_match_items:
  "map_option snd (match_items p mk n s) = rest_after p s"
  by (induction p mk n s rule: match_items.induct) (auto split: option.splits)

lemma rest_after_suffix: "rest_after p s = Some r \<Longrightarrow> \<exists>m. s = m @ r"
proof (induction p s rule: rest_after.induct)
  case (2 l p s)
  then show ?case by (auto split: option.splits simp: strip_prefix_Some)
next
  case (4 k p x xs)
  then show ?case by (auto split: option.splits if_splits)
next
  case (6 k p x xs)
  then show ?case by (auto split: option.splits if_splits)
qed auto

lemma first_lit_blocks:
  "first_lit p = Some c \<Longrightarrow> x \<noteq> c \<Longrightarrow> rest_after p (x # xs) = None"
  by (induction p rule: first_lit.induct) auto

lemma first_lit_nonempty:
  "first_lit p = Some c \<Longrightarrow> rest_after p [] = None"
  by (induction p rule: first_lit.induct) auto

lemma closed_star_step:
  "closed_by k p \<Longrightarrow> in_class k x \<Longrightarrow> rest_after (Star k # p) (x # xs) = rest_after (Star k # p) xs"
  by (auto simp: closed_by_def split: option.splits intro: first_lit_blocks)

lemma closed_star_run:
  "closed_by k p \<Longrightarrow> list_all (in_class k) w \<Longrightarrow> rest_after (Star k # p) (w @ t) = rest_after (Star k # p) t"
  by (induction w) (auto simp: closed_star_step simp del: rest_after.simps)

lemma first_lit_consumes:
  "first_lit p = Some c \<Longrightarrow> rest_after p s = Some r \<Longrightarrow> length r < length s"
proof (induction p arbitrary: s rule: first_lit.induct)
  case (1 c l p)
  then obtain s' where "s = (c # l) @ s'" "rest_after p s' = Some r"
    by (auto split: option.splits simp: strip_prefix_Some)
  moreover from this obtain m where "s' = m @ r" using rest_after_suffix by blast
  ultimately show ?case by simp
qed auto

lemma det_local_aux:
  "det p \<Longrightarrow> rest_after p s = Some r \<Longrightarrow> \<forall>m. s = m @ r \<longrightarrow> rest_after p (m @ r') = Some r'"
proof (induction p s rule: rest_after.induct)
  case (1 s)
  then show ?case by simp
next
  case (2 l p s)
  then obtain s' where s': "s = l @ s'" "rest_after p s' = Some r"
    by (auto split: option.splits simp: strip_prefix_Some)
  then obtain m' where m': "s' = m' @ r" using rest_after_suffix by blast
  have "rest_after p (m' @ r') = Some r'"
    using 2 s' m' by (auto simp: strip_prefix_Some)
  then show ?case using s' m' by auto
next
  case (3 k p)
  then show ?case by (auto simp: closed_by_def split: option.splits dest: first_lit_nonempty)
next
  case (4 k p x xs)
  from 4 have cl: "closed_by k p" and dp: "det p" by auto
  obtain c where c: "first_lit p = Some c" "\<not> in_class k c"
    using cl by (auto simp: closed_by_def split: option.splits)
  show ?case
  proof (cases "in_class k x")
    case True
    with 4 cl have r: "rest_after (Star k # p) xs = Some r"
      by (simp add: closed_star_step del: rest_after.simps)
    then obtain m' where m': "xs = m' @ r" using rest_after_suffix by blast
    have "rest_after (Star k # p) (m' @ r') = Some r'"
      using 4(1)[OF True _ r] 4(4) m' by simp
    then show ?thesis using m' True cl by (simp add: closed_star_step del: rest_after.simps)
  next
    case False
    with 4 have r: "rest_after p (x # xs) = Some r" by simp
    show ?thesis
    proof (intro allI impI)
      fix m assume m: "x # xs = m @ r"
      from first_lit_consumes[OF c(1) r] m have "m \<noteq> []" by auto
      then obtain m' where mm: "m = x # m'" using m by (cases m) auto
      have "rest_after p (m @ r') = Some r'" using 4(3)[OF False dp r] m by simp
      then show "rest_after (Star k # p) (m @ r') = Some r'" using mm False by simp
    qed
  qed
next
  case (5 k p)
  then show ?case by simp
next
  case (6 k p x xs)
  from 6 have cl: "closed_by k p" and dp: "det p" by auto
  from 6 have T: "in_class k x" and r: "rest_after (Star k # p) xs = Some r"
    by (auto split: if_splits)
  then obtain m' where m': "xs = m' @ r" using rest_after_suffix by blast
  have "rest_after (Star k # p) (m' @ r') = Some r'"
    using 6(1)[OF T _ r] 6(2) m' by simp
  then show ?case using m' T by simp
next
  case (7 p s)
  then show ?case by simp
next
  case (8 p s)
  then show ?case by simp
qed

lemma det_local:
  "det p \<Longrightarrow> rest_after p (m @ r) = Some r \<Longrightarrow> rest_after p (m @ r') = Some r'"
  using det_local_aux by blast

subsection \<open>Cutting a match in two\<close>

lemma tails_iff: "l' \<in> set (tails l) \<longleftrightarrow> l' \<noteq> [] \<and> (\<exists>a. l = a @ l')"
proof (induction l)
  case Nil
  then show ?case by auto
next
  case (Cons x xs)
  show ?case
  proof
    assume "l' \<in> set (tails (x # xs))"
    then consider "l' = x # xs" | "l' \<in> set (tails xs)" by auto
    then show "l' \<noteq> [] \<and> (\<exists>a. x # xs = a @ l')"
    proof cases
      case 1
      then show ?thesis by auto
    next
      case 2
      with Cons obtain a where "l' \<noteq> []" "xs = a @ l'" by auto
      then show ?thesis by (auto intro: exI[of _ "x # a"])
    qed
  next
    assume a: "l' \<noteq> [] \<and> (\<exists>a. x # xs = a @ l')"
    then obtain a where a': "x # xs = a @ l'" by blast
    show "l' \<in> set (tails (x # xs))"
    proof (cases a)
      case Nil
      with a' have "l' = x # xs" by simp
      then show ?thesis by simp
    next
      case (Cons y ys)
      with a' have "xs = ys @ l'" by simp
      with a Cons.IH show ?thesis by auto
    qed
  qed
qed

lemma split_state_aux:
  "rest_after p s = Some r \<Longrightarrow>
   \<forall>u. s = u @ v \<longrightarrow> length r < length v \<longrightarrow> (\<exists>q \<in> set (states p). rest_after q v = Some r)"
proof (induction p s rule: rest_after.induct)
  case (1 s)
  then show ?case by auto
next
  case (2 l p s)
  then obtain s' where s': "s = l @ s'" "rest_after p s' = Some r"
    by (auto split: option.splits simp: strip_prefix_Some)
  show ?case
  proof (intro allI impI)
    fix u assume u: "s = u @ v" and len: "length r < length v"
    show "\<exists>q \<in> set (states (Lits l # p)). rest_after q v = Some r"
    proof (cases "length l \<le> length u")
      case True
      with s' u obtain u' where "u = l @ u'" "s' = u' @ v"
        by (metis append_eq_append_conv_if append_eq_conv_conj append_take_drop_id)
      with 2 s' len obtain q where "q \<in> set (states p)" "rest_after q v = Some r"
        by (auto simp: strip_prefix_Some)
      then show ?thesis by auto
    next
      case False
      with s' u obtain l2 where l2: "l = u @ l2" "v = l2 @ s'" "l2 \<noteq> []"
        by (metis append_eq_append_conv_if append_eq_conv_conj append_take_drop_id
            drop_eq_Nil leI)
      then have "l2 \<in> set (tails l)" by (auto simp: tails_iff)
      then have "Lits l2 # p \<in> set (states (Lits l # p))" by simp
      moreover have "rest_after (Lits l2 # p) v = Some r" using l2 s' by simp
      ultimately show ?thesis by blast
    qed
  qed
next
  case (3 k p)
  then show ?case by auto
next
  case (4 k p x xs)
  show ?case
  proof (intro allI impI)
    fix u assume u: "x # xs = u @ v" and len: "length r < length v"
    show "\<exists>q \<in> set (states (Star k # p)). rest_after q v = Some r"
    proof (cases u)
      case Nil
      with u "4.prems" show ?thesis by auto
    next
      case (Cons y u')
      with u have xs: "xs = u' @ v" and yx: "y = x" by auto
      show ?thesis
      proof (cases "in_class k x")
        case True
        show ?thesis
        proof (cases "rest_after (Star k # p) xs")
          case None
          with True "4.prems" have "rest_after p (x # xs) = Some r" by simp
          from "4.IH"(2)[OF True None this] u len show ?thesis by auto
        next
          case (Some r1)
          with True "4.prems" have "r1 = r" by simp
          with "4.IH"(1)[OF True] Some xs len show ?thesis by auto
        qed
      next
        case False
        with "4.prems" have "rest_after p (x # xs) = Some r" by simp
        from "4.IH"(3)[OF False this] u len show ?thesis by auto
      qed
    qed
  qed
next
  case (5 k p)
  then show ?case by auto
next
  case (6 k p x xs)
  then have T: "in_class k x" and r: "rest_after (Star k # p) xs = Some r"
    by (auto split: if_splits)
  show ?case
  proof (intro allI impI)
    fix u assume u: "x # xs = u @ v" and len: "length r < length v"
    show "\<exists>q \<in> set (states (Plus k # p)). rest_after q v = Some r"
    proof (cases u)
      case Nil
      with u 6(2) show ?thesis by auto
    next
      case (Cons y u')
      with u have xs: "xs = u' @ v" by auto
      with 6(1)[OF T r] len show ?thesis by auto
    qed
  qed
next
  case (7 p s)
  then show ?case by auto
next
  case (8 p s)
  then show ?case by auto
qed

lemma split_state:
  "rest_after p (u @ v) = Some r \<Longrightarrow> length r < length v \<Longrightarrow>
   \<exists>q \<in> set (states p). rest_after q v = Some r"
  using split_state_aux by blast

lemma barrier_crossing:
  assumes "barrier p R" and "rest_after p (u @ R @ t) = Some r"
  shows "\<exists>m r0. u = m @ r0 \<and> r = r0 @ R @ t"
proof -
  have "\<not> length r < length (R @ t)"
  proof
    assume "length r < length (R @ t)"
    from split_state[OF assms(2) this] assms(1) show False
      by (auto simp: barrier_def)
  qed
  moreover obtain m where m: "u @ R @ t = m @ r" using rest_after_suffix[OF assms(2)] by blast
  moreover from m have "length u + length R + length t = length m + length r"
    by (metis length_append add.assoc)
  ultimately have "length m \<le> length u" by simp
  with m show ?thesis
    by (metis append_eq_append_conv_if append_take_drop_id)
qed

lemma barrier_local:
  assumes "det p" "barrier p R" and "rest_after p (u @ R @ t) = Some r"
  shows "\<exists>r0. r = r0 @ R @ t \<and> (\<forall>X. rest_after p (u @ X) = Some (r0 @ X))"
proof -
  from barrier_crossing[OF assms(2,3)] obtain m r0 where m: "u = m @ r0" "r = r0 @ R @ t" by blast
  with assms(3) have "rest_after p (m @ (r0 @ R @ t)) = Some (r0 @ R @ t)" by simp
  from det_local[OF assms(1) this] m show ?thesis by auto
qed

section \<open>Properties of the scan\<close>

declare re_sub.simps [simp del]

lemma take_takeWhile: "take (length (takeWhile P xs)) xs = takeWhile P xs"
  by (metis append_eq_conv_conj takeWhile_dropWhile_id)

lemma length_dropWhile_less: "takeWhile P s \<noteq> [] \<Longrightarrow> length (dropWhile P s) < length s"
  by (metis (no_types) add_cancel_right_left length_0_conv length_append length_dropWhile_le
      nat_less_le takeWhile_dropWhile_id)

lemma match_nomarks:
  "nomarks p \<Longrightarrow> match_items p mk n s = map_option (Pair mk) (rest_after p s)"
  by (induction p mk n s rule: match_items.induct) (auto split: option.splits)

lemma star_close:
  assumes "nomarks body" "first_lit body = Some c" "\<not> is_space c"
  shows "match_items (Star Space # GClose # body) mk n s =
     map_option (Pair (fst mk, Some (n + length (takeWhile is_space s))))
       (rest_after body (dropWhile is_space s))"
proof (induction s arbitrary: n)
  case Nil
  then show ?case using assms by (simp add: match_nomarks)
next
  case (Cons x xs)
  show ?case
  proof (cases "is_space x")
    case True
    then have "x \<noteq> c" using assms by auto
    then have "rest_after body (x # xs) = None" using assms first_lit_blocks by blast
    then show ?thesis using True Cons[of "Suc n"] assms
      by (auto simp: match_nomarks split: option.splits)
  next
    case False
    then show ?thesis using assms by (simp add: match_nomarks)
  qed
qed

lemma star_close_rest:
  assumes "first_lit body = Some c" "\<not> is_space c"
  shows "rest_after (Star Space # GClose # body) s = rest_after body (dropWhile is_space s)"
proof (induction s)
  case Nil
  then show ?case by simp
next
  case (Cons x xs)
  show ?case
  proof (cases "is_space x")
    case True
    then have "x \<noteq> c" using assms by auto
    then have "rest_after body (x # xs) = None" using assms first_lit_blocks by blast
    then show ?thesis using True Cons by (auto split: option.splits)
  next
    case False
    then show ?thesis by simp
  qed
qed

lemma headed_rest:
  assumes "headed p"
  shows "rest_after p s =
     (if takeWhile is_space s = [] then None else rest_after (drop 3 p) (dropWhile is_space s))"
proof -
  from assms obtain body c where b: "p = GOpen # Plus Space # GClose # body" "nomarks body"
    "first_lit body = Some c" "\<not> is_space c" by (auto simp: headed_def)
  show ?thesis
  proof (cases s)
    case Nil
    then show ?thesis using b by simp
  next
    case (Cons x xs)
    then show ?thesis using b star_close_rest[OF b(3,4), of xs] by auto
  qed
qed

lemma headed_match:
  assumes "headed p"
  shows "re_match p s = map_option (Pair (takeWhile is_space s)) (rest_after p s)"
proof -
  from assms obtain body c where b: "p = GOpen # Plus Space # GClose # body" "nomarks body"
    "first_lit body = Some c" "\<not> is_space c" by (auto simp: headed_def)
  show ?thesis
  proof (cases s)
    case Nil
    then show ?thesis using b by (simp add: re_match_def)
  next
    case (Cons x xs)
    show ?thesis
    proof (cases "is_space x")
      case True
      have "group1 (Some 0, Some (Suc (length (takeWhile is_space xs)))) (x # xs)
          = x # takeWhile is_space xs"
        by (simp add: group1_def take_takeWhile)
      then show ?thesis using True Cons b star_close[OF b(2,3,4), of "(Some 0, None)" "Suc 0" xs]
          star_close_rest[OF b(3,4), of xs]
        by (auto simp: re_match_def split: option.splits)
    next
      case False
      then show ?thesis using Cons b by (simp add: re_match_def)
    qed
  qed
qed

lemma headed_det: "headed p \<Longrightarrow> det p"
  by (auto simp: headed_def closed_by_def)

lemma headed_consumes:
  assumes "headed p" "rest_after p s = Some r"
  shows "length r < length s"
proof -
  from assms rest_after_suffix obtain m where m: "s = m @ r" by blast
  have "m \<noteq> []"
  proof
    assume "m = []"
    with m assms(2) have "rest_after p s = Some s" by simp
    then have a: "takeWhile is_space s \<noteq> []" "rest_after (drop 3 p) (dropWhile is_space s) = Some s"
      using headed_rest[OF assms(1), of s] by (auto split: if_splits)
    from rest_after_suffix[OF a(2)] have "length s \<le> length (dropWhile is_space s)"
      by (metis length_append le_add2)
    with length_dropWhile_less[OF a(1)] show False by simp
  qed
  with m show ?thesis by simp
qed

lemma headed_sub_Nil [simp]: "headed p \<Longrightarrow> re_sub p t [] = []"
  by (simp add: headed_match headed_rest re_sub.simps)

lemma headed_sub_Cons:
  "headed p \<Longrightarrow> re_sub p t (c # cs) =
     (case rest_after p (c # cs) of
        None \<Rightarrow> c # re_sub p t cs
      | Some r \<Rightarrow> expand t (takeWhile is_space (c # cs)) @ re_sub p t r)"
  using headed_consumes[of p "c # cs"]
  by (auto simp: headed_match re_sub.simps split: option.splits simp del: rest_after.simps)

lemma nomatch_sub: "headed p \<Longrightarrow> nomatch p s \<Longrightarrow> re_sub p t s = s"
  by (induction s) (auto simp: headed_sub_Cons simp del: rest_after.simps)

lemma nomatch_append: "nomatch p (a @ s) \<longleftrightarrow> free_on p a s \<and> nomatch p s"
  by (induction a) (auto simp del: rest_after.simps)

lemma nomatch_suffix: "nomatch p (a @ s) \<Longrightarrow> nomatch p s"
  by (simp add: nomatch_append)

lemma headed_white:
  assumes "headed p" "rest_after p s = Some r"
  shows "white (takeWhile is_space s)"
  using assms by (auto simp: headed_rest white_def list_all_iff split: if_splits dest: set_takeWhileD)

text \<open>The first match of a scan, when there is one.\<close>

lemma first_hit:
  assumes "headed p"
  shows "nomatch p s \<or>
     (\<exists>k m r. s = k @ m @ r \<and> rest_after p (m @ r) = Some r \<and>
        re_sub p t s = k @ expand t (takeWhile is_space (m @ r)) @ re_sub p t r)"
proof (induction s)
  case Nil
  then show ?case using assms by (auto simp: headed_def)
next
  case (Cons c cs)
  show ?case
  proof (cases "rest_after p (c # cs)")
    case None
    from Cons show ?thesis
    proof
      assume "nomatch p cs"
      with None show ?thesis by (simp del: rest_after.simps)
    next
      assume "\<exists>k m r. cs = k @ m @ r \<and> rest_after p (m @ r) = Some r \<and>
        re_sub p t cs = k @ expand t (takeWhile is_space (m @ r)) @ re_sub p t r"
      then obtain k m r where "cs = k @ m @ r" "rest_after p (m @ r) = Some r"
        "re_sub p t cs = k @ expand t (takeWhile is_space (m @ r)) @ re_sub p t r" by blast
      then have "c # cs = (c # k) @ m @ r \<and> rest_after p (m @ r) = Some r \<and>
        re_sub p t (c # cs) = (c # k) @ expand t (takeWhile is_space (m @ r)) @ re_sub p t r"
        using None assms by (simp add: headed_sub_Cons del: rest_after.simps)
      then show ?thesis by blast
    qed
  next
    case (Some r)
    then obtain m where m: "c # cs = m @ r" using rest_after_suffix by blast
    have "re_sub p t (c # cs) = expand t (takeWhile is_space (c # cs)) @ re_sub p t r"
      using Some assms by (simp add: headed_sub_Cons del: rest_after.simps)
    then have "c # cs = [] @ m @ r \<and> rest_after p (m @ r) = Some r \<and>
        re_sub p t (c # cs) = [] @ expand t (takeWhile is_space (m @ r)) @ re_sub p t r"
      using Some m by (metis append_Nil)
    then show ?thesis by blast
  qed
qed

text \<open>A text without a match at its head has none after a scan of what follows a prefix.\<close>

lemma blocked_head:
  assumes "headed p" "headed q" "blocks p tq" "rest_after p (u @ s) = None"
  shows "rest_after p (u @ re_sub q tq s) = None"
proof -
  from first_hit[OF assms(2), of s tq] show ?thesis
  proof
    assume "nomatch q s"
    then show ?thesis using assms by (simp add: nomatch_sub)
  next
    assume "\<exists>k m r. s = k @ m @ r \<and> rest_after q (m @ r) = Some r \<and>
        re_sub q tq s = k @ expand tq (takeWhile is_space (m @ r)) @ re_sub q tq r"
    then obtain k m r where h: "s = k @ m @ r" "rest_after q (m @ r) = Some r"
        "re_sub q tq s = k @ expand tq (takeWhile is_space (m @ r)) @ re_sub q tq r" by blast
    let ?R = "expand tq (takeWhile is_space (m @ r))"
    have "white (takeWhile is_space (m @ r))" using headed_white[OF assms(2) h(2)] .
    then have b: "barrier p ?R" using assms(3) by (simp add: blocks_def)
    show ?thesis
    proof (rule ccontr)
      assume "rest_after p (u @ re_sub q tq s) \<noteq> None"
      then obtain r' where "rest_after p ((u @ k) @ ?R @ re_sub q tq r) = Some r'"
        using h(3) by auto
      from barrier_local[OF headed_det[OF assms(1)] b this]
      have "rest_after p ((u @ k) @ m @ r) \<noteq> None" by auto
      with assms(4) h(1) show False by simp
    qed
  qed
qed

lemma sub_keeps_nomatch_self:
  assumes "headed p" "blocks p t"
  shows "nomatch p (re_sub p t s)"
proof (induction s rule: length_induct)
  case (1 s)
  show ?case
  proof (cases s)
    case Nil
    then show ?thesis using assms by (auto simp: headed_def)
  next
    case (Cons c cs)
    show ?thesis
    proof (cases "rest_after p (c # cs)")
      case None
      have "rest_after p ([c] @ re_sub p t cs) = None"
        using blocked_head[OF assms(1) assms(1) assms(2), of "[c]" cs] None by simp
      moreover have "nomatch p (re_sub p t cs)" using 1 Cons by simp
      ultimately show ?thesis using Cons None assms
        by (simp add: headed_sub_Cons del: rest_after.simps)
    next
      case (Some r)
      have "length r < length s" using headed_consumes[OF assms(1) Some] Cons by simp
      then have "nomatch p (re_sub p t r)" using 1 by simp
      moreover have "free_on p (expand t (takeWhile is_space (c # cs))) (re_sub p t r)"
        using headed_white[OF assms(1) Some] assms(2) by (simp add: blocks_def)
      ultimately show ?thesis using Cons Some assms
        by (simp add: headed_sub_Cons nomatch_append del: rest_after.simps)
    qed
  qed
qed

lemma sub_keeps_nomatch_other:
  assumes "headed p" "headed q" "blocks p tq"
  shows "nomatch p s \<Longrightarrow> nomatch p (re_sub q tq s)"
proof (induction s rule: length_induct)
  case (1 s)
  show ?case
  proof (cases s)
    case Nil
    then show ?thesis using assms 1 by simp
  next
    case (Cons c cs)
    from 1(2) Cons have nc: "rest_after p (c # cs) = None" "nomatch p cs"
      by (auto simp del: rest_after.simps)
    show ?thesis
    proof (cases "rest_after q (c # cs)")
      case None
      have "rest_after p ([c] @ re_sub q tq cs) = None"
        using blocked_head[OF assms, of "[c]" cs] nc by simp
      moreover have "nomatch p (re_sub q tq cs)" using 1 Cons nc by simp
      ultimately show ?thesis using Cons None assms
        by (simp add: headed_sub_Cons del: rest_after.simps)
    next
      case (Some r)
      have len: "length r < length s" using headed_consumes[OF assms(2) Some] Cons by simp
      obtain m where "s = m @ r" using rest_after_suffix[OF Some] Cons by auto
      then have "nomatch p r" using 1(2) nomatch_suffix by blast
      then have "nomatch p (re_sub q tq r)" using 1 len by simp
      moreover have "free_on p (expand tq (takeWhile is_space (c # cs))) (re_sub q tq r)"
        using headed_white[OF assms(2) Some] assms(3) by (simp add: blocks_def)
      ultimately show ?thesis using Cons Some assms
        by (simp add: headed_sub_Cons nomatch_append del: rest_after.simps)
    qed
  qed
qed

section \<open>Soundness of the static check\<close>

lemma star_run_fails:
  assumes h1: "\<And>w2. list_all (in_class k2) w2 \<Longrightarrow> rest_after q (w2 @ t) = None"
    and h2: "rest_after (Star k # q) t = None"
  shows "list_all (in_class k2) w \<Longrightarrow> rest_after (Star k # q) (w @ t) = None"
proof (induction w)
  case Nil
  then show ?case using h2 by simp
next
  case (Cons c w)
  then have "rest_after (Star k # q) (w @ t) = None" by simp
  moreover have "rest_after q (c # w @ t) = None" using h1[of "c # w"] Cons.prems by simp
  ultimately show ?case by simp
qed

lemma fails_sound:
  "fails q d \<Longrightarrow> inlang d v \<Longrightarrow> rest_after q (v @ Y) = None"
proof (induction q d arbitrary: v rule: fails.induct)
  case (9 a l q b m d)
  from "9.prems" obtain v' where v: "v = (b # m) @ v'" "inlang d v'" by auto
  show ?case
  proof (cases "a = b")
    case True
    have "inlang (Lits m # d) (m @ v')" using v by auto
    from "9.IH"[OF True _ this] "9.prems"(1) True
    have "rest_after (Lits l # q) ((m @ v') @ Y) = None" by simp
    then show ?thesis using v True by simp
  next
    case False
    then show ?thesis using v by simp
  qed
next
  case (10 a l q k2 d)
  from "10.prems" obtain w v' where v: "v = w @ v'" "list_all (in_class k2) w" "inlang d v'"
    by auto
  show ?case
  proof (cases w)
    case Nil
    then show ?thesis using 10 v by simp
  next
    case (Cons c w')
    show ?thesis
    proof (cases "c = a")
      case True
      then have ia: "in_class k2 a" using v Cons by simp
      have "inlang (Star k2 # d) (w' @ v')" using v Cons by auto
      from "10.IH"(2)[OF ia _ this] "10.prems"(1) ia
      have "rest_after (Lits l # q) ((w' @ v') @ Y) = None" by simp
      then show ?thesis using v Cons True by simp
    next
      case False
      then show ?thesis using v Cons by simp
    qed
  qed
next
  case (11 a l q k2 d)
  from "11.prems" obtain w v' where v: "v = w @ v'" "w \<noteq> []" "list_all (in_class k2) w" "inlang d v'"
    by auto
  then obtain c w' where Cons: "w = c # w'" by (cases w) auto
  show ?case
  proof (cases "c = a")
    case True
    then have ia: "in_class k2 a" using v Cons by simp
    have "inlang (Star k2 # d) (w' @ v')" using v Cons by auto
    from "11.IH"[OF ia _ this] "11.prems"(1) ia
    have "rest_after (Lits l # q) ((w' @ v') @ Y) = None" by simp
    then show ?thesis using v Cons True by simp
  next
    case False
    then show ?thesis using v Cons by simp
  qed
next
  case (16 k q b m d)
  from "16.prems" obtain v' where v: "v = (b # m) @ v'" "inlang d v'" by auto
  show ?case
  proof (cases "in_class k b")
    case True
    have "inlang (Lits m # d) (m @ v')" using v by auto
    from "16.IH"(1)[OF True _ this] "16.prems"(1) True
    have "rest_after (Star k # q) ((m @ v') @ Y) = None" by simp
    moreover have "rest_after q (v @ Y) = None"
      using "16.IH"(2)[OF True _ "16.prems"(2)] "16.prems"(1) True by simp
    ultimately show ?thesis using v True by simp
  next
    case False
    have "rest_after q (v @ Y) = None"
      using "16.IH"(3)[OF False _ "16.prems"(2)] "16.prems"(1) False by simp
    then show ?thesis using v False by simp
  qed
next
  case (17 k q k2 d)
  from "17.prems" obtain w v' where v: "v = w @ v'" "list_all (in_class k2) w" "inlang d v'"
    by auto
  have h1: "rest_after q (w2 @ v' @ Y) = None" if "list_all (in_class k2) w2" for w2
  proof -
    have "inlang (Star k2 # d) (w2 @ v')" using that v by auto
    from "17.IH"(1)[OF _ this] "17.prems"(1) show ?thesis by simp
  qed
  have h2: "rest_after (Star k # q) (v' @ Y) = None"
    using "17.IH"(2)[OF _ v(3)] "17.prems"(1) by simp
  show ?case using star_run_fails[OF h1 h2 v(2)] v by simp
next
  case (18 k q k2 d)
  from "18.prems" obtain w v' where v: "v = w @ v'" "list_all (in_class k2) w" "inlang d v'"
    by auto
  have h1: "rest_after q (w2 @ v' @ Y) = None" if "list_all (in_class k2) w2" for w2
  proof -
    have "inlang (Star k2 # d) (w2 @ v')" using that v by auto
    from "18.IH"(1)[OF _ this] "18.prems"(1) show ?thesis by simp
  qed
  have h2: "rest_after (Star k # q) (v' @ Y) = None"
    using "18.IH"(2)[OF _ v(3)] "18.prems"(1) by simp
  show ?case using star_run_fails[OF h1 h2 v(2)] v by simp
next
  case (23 k q b m d)
  from "23.prems" obtain v' where v: "v = (b # m) @ v'" "inlang d v'" by auto
  show ?case
  proof (cases "in_class k b")
    case True
    have "inlang (Lits m # d) (m @ v')" using v by auto
    from "23.IH"[OF True _ this] "23.prems"(1) True
    have "rest_after (Star k # q) ((m @ v') @ Y) = None" by simp
    then show ?thesis using v True by simp
  next
    case False
    then show ?thesis using v by simp
  qed
next
  case (24 k q k2 d)
  from "24.prems" obtain w v' where v: "v = w @ v'" "list_all (in_class k2) w" "inlang d v'"
    by auto
  show ?case
  proof (cases w)
    case Nil
    then show ?thesis using 24 v by simp
  next
    case (Cons c w')
    show ?thesis
    proof (cases "in_class k c")
      case True
      have "inlang (Star k2 # d) (w' @ v')" using v Cons by auto
      from "24.IH"(2)[OF _ this] "24.prems"(1)
      have "rest_after (Star k # q) ((w' @ v') @ Y) = None" by simp
      then show ?thesis using v Cons True by simp
    next
      case False
      then show ?thesis using v Cons by simp
    qed
  qed
next
  case (25 k q k2 d)
  from "25.prems" obtain w v' where v: "v = w @ v'" "w \<noteq> []" "list_all (in_class k2) w" "inlang d v'"
    by auto
  then obtain c w' where Cons: "w = c # w'" by (cases w) auto
  show ?case
  proof (cases "in_class k c")
    case True
    have "inlang (Star k2 # d) (w' @ v')" using v Cons by auto
    from "25.IH"[OF _ this] "25.prems"(1)
    have "rest_after (Star k # q) ((w' @ v') @ Y) = None" by simp
    then show ?thesis using v Cons True by simp
  next
    case False
    then show ?thesis using v Cons by simp
  qed
qed auto

lemma inlang_StarI: "list_all (in_class k) w \<Longrightarrow> inlang p m \<Longrightarrow> inlang (Star k # p) (w @ m)"
  by auto

lemma inlang_Star0: "inlang p m \<Longrightarrow> inlang (Star k # p) m"
  using inlang_StarI[of k "[]" p m] by simp

lemma inlang_PlusI:
  "w \<noteq> [] \<Longrightarrow> list_all (in_class k) w \<Longrightarrow> inlang p m \<Longrightarrow> inlang (Plus k # p) (w @ m)"
  by auto

lemma inlang_Star_Cons: "in_class k x \<Longrightarrow> inlang (Star k # p) m \<Longrightarrow> inlang (Star k # p) (x # m)"
proof -
  assume x: "in_class k x" and "inlang (Star k # p) m"
  then obtain w m' where m: "m = w @ m'" "list_all (in_class k) w" "inlang p m'" by auto
  have "inlang (Star k # p) ((x # w) @ m')"
    by (rule inlang_StarI) (use x m in auto)
  then show ?thesis using m by simp
qed

lemma inlang_Plus_Cons: "in_class k x \<Longrightarrow> inlang (Star k # p) m \<Longrightarrow> inlang (Plus k # p) (x # m)"
proof -
  assume x: "in_class k x" and "inlang (Star k # p) m"
  then obtain w m' where m: "m = w @ m'" "list_all (in_class k) w" "inlang p m'" by auto
  have "inlang (Plus k # p) ((x # w) @ m')"
    by (rule inlang_PlusI) (use x m in auto)
  then show ?thesis using m by simp
qed

lemma inlang_states_aux:
  "inlang d v \<Longrightarrow> \<forall>v1 v2. v = v1 @ v2 \<longrightarrow> v2 \<noteq> [] \<longrightarrow> (\<exists>d' \<in> set (states d). inlang d' v2)"
proof (induction d arbitrary: v rule: states.induct)
  case 1
  then show ?case by simp
next
  case (2 l p)
  from "2.prems" obtain m' where m': "v = l @ m'" "inlang p m'" by auto
  show ?case
  proof (intro allI impI)
    fix v1 v2 assume v: "v = v1 @ v2" and ne: "v2 \<noteq> []"
    show "\<exists>d' \<in> set (states (Lits l # p)). inlang d' v2"
    proof (cases "length l \<le> length v1")
      case True
      with m' v obtain u where "v1 = l @ u \<and> m' = u @ v2"
        by (metis append_eq_append_conv_if append_eq_conv_conj append_take_drop_id)
      then have "m' = u @ v2" by simp
      with "2.IH"[OF m'(2)] ne obtain d' where "d' \<in> set (states p)" "inlang d' v2" by blast
      then show ?thesis by auto
    next
      case False
      with m' v obtain l2 where l2: "l = v1 @ l2" "v2 = l2 @ m'" "l2 \<noteq> []"
        by (metis append_eq_append_conv_if append_eq_conv_conj append_take_drop_id
            drop_eq_Nil leI)
      then have "l2 \<in> set (tails l)" by (auto simp: tails_iff)
      then have "Lits l2 # p \<in> set (states (Lits l # p))" by simp
      moreover have "inlang (Lits l2 # p) v2" using l2 m' by auto
      ultimately show ?thesis by blast
    qed
  qed
next
  case (3 k p)
  from "3.prems" obtain w m' where m': "v = w @ m'" "list_all (in_class k) w" "inlang p m'" by auto
  show ?case
  proof (intro allI impI)
    fix v1 v2 assume v: "v = v1 @ v2" and ne: "v2 \<noteq> []"
    show "\<exists>d' \<in> set (states (Star k # p)). inlang d' v2"
    proof (cases "length w \<le> length v1")
      case True
      with m' v obtain u where "v1 = w @ u \<and> m' = u @ v2"
        by (metis append_eq_append_conv_if append_eq_conv_conj append_take_drop_id)
      then have "m' = u @ v2" by simp
      with "3.IH"[OF m'(3)] ne obtain d' where "d' \<in> set (states p)" "inlang d' v2" by blast
      then show ?thesis by auto
    next
      case False
      with m' v obtain w2 where w2: "w = v1 @ w2" "v2 = w2 @ m'"
        by (metis append_eq_append_conv_if append_eq_conv_conj append_take_drop_id leI
            less_imp_le_nat)
      then have "inlang (Star k # p) v2" using m' inlang_StarI[of k w2 p m'] by auto
      then show ?thesis by auto
    qed
  qed
next
  case (4 k p)
  from "4.prems" obtain w m' where m': "v = w @ m'" "list_all (in_class k) w" "inlang p m'" by auto
  show ?case
  proof (intro allI impI)
    fix v1 v2 assume v: "v = v1 @ v2" and ne: "v2 \<noteq> []"
    show "\<exists>d' \<in> set (states (Plus k # p)). inlang d' v2"
    proof (cases "length w \<le> length v1")
      case True
      with m' v obtain u where "v1 = w @ u \<and> m' = u @ v2"
        by (metis append_eq_append_conv_if append_eq_conv_conj append_take_drop_id)
      then have "m' = u @ v2" by simp
      with "4.IH"[OF m'(3)] ne obtain d' where "d' \<in> set (states p)" "inlang d' v2" by blast
      then show ?thesis by auto
    next
      case False
      with m' v obtain w2 where w2: "w = v1 @ w2" "v2 = w2 @ m'"
        by (metis append_eq_append_conv_if append_eq_conv_conj append_take_drop_id leI
            less_imp_le_nat)
      then have "inlang (Star k # p) v2" using m' inlang_StarI[of k w2 p m'] by auto
      then show ?thesis by auto
    qed
  qed
next
  case (5 p)
  then show ?case by simp
next
  case (6 p)
  then show ?case by simp
qed

lemma inlang_states:
  "inlang d (v1 @ v2) \<Longrightarrow> v2 \<noteq> [] \<Longrightarrow> \<exists>d' \<in> set (states d). inlang d' v2"
  using inlang_states_aux by blast

lemma barrier_by_fails:
  assumes "list_all (\<lambda>q. fails q d) (states p)" "inlang d v"
  shows "barrier p v"
  using assms fails_sound by (auto simp: barrier_def list_all_iff)

lemma free_on_iff:
  "free_on p a rest \<longleftrightarrow> (\<forall>a1 a2. a = a1 @ a2 \<and> a2 \<noteq> [] \<longrightarrow> rest_after p (a2 @ rest) = None)"
proof (induction a)
  case Nil
  then show ?case by simp
next
  case (Cons c a)
  show ?case
  proof
    assume l: "free_on p (c # a) rest"
    show "\<forall>a1 a2. c # a = a1 @ a2 \<and> a2 \<noteq> [] \<longrightarrow> rest_after p (a2 @ rest) = None"
    proof (intro allI impI)
      fix a1 a2 assume h: "c # a = a1 @ a2 \<and> a2 \<noteq> []"
      show "rest_after p (a2 @ rest) = None"
      proof (cases a1)
        case Nil
        with h l show ?thesis by (auto simp del: rest_after.simps)
      next
        case (Cons x xs)
        with h have "a = xs @ a2" by simp
        with l Cons.IH h show ?thesis by (auto simp del: rest_after.simps)
      qed
    qed
  next
    assume r: "\<forall>a1 a2. c # a = a1 @ a2 \<and> a2 \<noteq> [] \<longrightarrow> rest_after p (a2 @ rest) = None"
    then have "rest_after p ((c # a) @ rest) = None" by blast
    moreover have "free_on p a rest"
      unfolding Cons.IH using r by (metis append_Cons)
    ultimately show "free_on p (c # a) rest" by (simp del: rest_after.simps)
  qed
qed

lemma free_by_fails:
  assumes "list_all (fails p) (states d)" "inlang d v"
  shows "free_on p v rest"
  unfolding free_on_iff
proof (intro allI impI)
  fix a1 a2 assume "v = a1 @ a2 \<and> a2 \<noteq> []"
  with inlang_states[of d a1 a2] assms(2) obtain d' where "d' \<in> set (states d)" "inlang d' a2"
    by auto
  with assms(1) fails_sound show "rest_after p (a2 @ rest) = None"
    by (auto simp: list_all_iff)
qed

lemma inlang_desc: "white g \<Longrightarrow> inlang (desc t) (expand t g)"
proof (induction t rule: desc.induct)
  case 1
  then show ?case by simp
next
  case (2 t)
  then have "inlang (Plus Space # desc t) (g @ expand t g)"
    by (intro inlang_PlusI) (auto simp: white_def list_all_iff)
  then show ?case by simp
next
  case (3 l t)
  then show ?case by simp
qed

lemma blocks_by_fails:
  assumes "list_all (\<lambda>q. fails q (desc t)) (states p)" "list_all (fails p) (states (desc t))"
  shows "blocks p t"
  using assms barrier_by_fails free_by_fails inlang_desc by (auto simp: blocks_def)

lemma match_inlang:
  "rest_after p s = Some r \<Longrightarrow> \<exists>m. s = m @ r \<and> inlang p m"
proof (induction p s rule: rest_after.induct)
  case (1 s)
  then show ?case by simp
next
  case (2 l p s)
  then obtain s' where s': "s = l @ s'" "rest_after p s' = Some r"
    by (auto split: option.splits simp: strip_prefix_Some)
  with 2 obtain m where "s' = m @ r" "inlang p m" by (auto simp: strip_prefix_Some)
  with s' have "s = (l @ m) @ r \<and> inlang (Lits l # p) (l @ m)" by auto
  then show ?case by blast
next
  case (3 k p)
  then obtain m where "[] = m @ r" "inlang p m" by auto
  then have "[] = m @ r \<and> inlang (Star k # p) m"
    using inlang_Star0 by blast
  then show ?case by blast
next
  case (4 k p x xs)
  show ?case
  proof (cases "in_class k x")
    case True
    show ?thesis
    proof (cases "rest_after (Star k # p) xs")
      case None
      with True "4.prems" have "rest_after p (x # xs) = Some r" by simp
      from "4.IH"(2)[OF True None this] obtain m where m: "x # xs = m @ r" "inlang p m" by blast
      then have "inlang (Star k # p) m" using inlang_Star0 by blast
      with m show ?thesis by blast
    next
      case (Some r1)
      with True "4.prems" have "r1 = r" by simp
      with "4.IH"(1)[OF True] Some obtain m where m: "xs = m @ r" "inlang (Star k # p) m" by blast
      then have "inlang (Star k # p) (x # m)" using True inlang_Star_Cons by blast
      with m show ?thesis by (metis append_Cons)
    qed
  next
    case False
    with "4.prems" have "rest_after p (x # xs) = Some r" by simp
    from "4.IH"(3)[OF False this] obtain m where m: "x # xs = m @ r" "inlang p m" by blast
    then have "inlang (Star k # p) m" using inlang_Star0 by blast
    with m show ?thesis by blast
  qed
next
  case (5 k p)
  then show ?case by simp
next
  case (6 k p x xs)
  then have T: "in_class k x" and r: "rest_after (Star k # p) xs = Some r"
    by (auto split: if_splits)
  from "6.IH"[OF T r] obtain m where m: "xs = m @ r" "inlang (Star k # p) m" by blast
  then have "inlang (Plus k # p) (x # m)" using T inlang_Plus_Cons by blast
  with m show ?case by (metis append_Cons)
next
  case (7 p s)
  then show ?case by simp
next
  case (8 p s)
  then show ?case by simp
qed

lemma lits_fail_iff: "lits_fail l p d \<longleftrightarrow> list_all (\<lambda>l'. fails (Lits l' # p) d) (tails l)"
  by (induction l) auto

lemma all_fail_iff: "all_fail p d \<longleftrightarrow> list_all (\<lambda>q. fails q d) (states p)"
  by (induction p rule: states.induct) (auto simp: lits_fail_iff list_all_iff)

lemma fail_lits_iff: "fail_lits p l d \<longleftrightarrow> list_all (\<lambda>l'. fails p (Lits l' # d)) (tails l)"
  by (induction l) auto

lemma fail_all_iff: "fail_all p d \<longleftrightarrow> list_all (fails p) (states d)"
  by (induction d rule: states.induct) (auto simp: fail_lits_iff list_all_iff)

lemma blocks_by_check: "all_fail p (desc t) \<Longrightarrow> fail_all p (desc t) \<Longrightarrow> blocks p t"
  by (simp add: blocks_by_fails all_fail_iff fail_all_iff)

lemma fails_cong: "fails q d = fails q d" by (rule refl)
lemma lits_fail_cong: "lits_fail l p d = lits_fail l p d" by (rule refl)
lemma all_fail_cong: "all_fail p d = all_fail p d" by (rule refl)
lemma fail_lits_cong: "fail_lits p l d = fail_lits p l d" by (rule refl)
lemma fail_all_cong: "fail_all p d = fail_all p d" by (rule refl)

lemmas block_congs = fails_cong lits_fail_cong all_fail_cong fail_lits_cong fail_all_cong

section \<open>Scanning across inert text\<close>

lemma free_sub:
  "headed p \<Longrightarrow> free_on p a rest \<Longrightarrow> re_sub p t (a @ rest) = a @ re_sub p t rest"
  by (induction a) (auto simp: headed_sub_Cons simp del: rest_after.simps)

lemma headed_group_local:
  assumes "headed p" "rest_after p (m @ r) = Some r"
  shows "takeWhile is_space (m @ r') = takeWhile is_space (m @ r)"
proof -
  from assms(1) obtain body c where b: "p = GOpen # Plus Space # GClose # body"
    "first_lit body = Some c" "\<not> is_space c" by (auto simp: headed_def)
  let ?g = "takeWhile is_space (m @ r)" and ?d = "dropWhile is_space (m @ r)"
  from assms have d: "rest_after body ?d = Some r"
    using headed_rest[OF assms(1), of "m @ r"] b by (auto split: if_splits)
  from first_lit_consumes[OF b(2) d] have len: "length r < length ?d" .
  obtain m' where m': "?d = m' @ r" using rest_after_suffix[OF d] by blast
  with len have ne: "m' \<noteq> []" by auto
  have "m @ r = ?g @ m' @ r" using m' by (metis takeWhile_dropWhile_id)
  then have m: "m = ?g @ m'" by simp
  have "\<not> is_space (hd ?d)" using len by (metis hd_dropWhile length_greater_0_conv less_nat_zero_code list.size(3) not_less_zero gr_implies_not0)
  then have h: "\<not> is_space (hd m')" using m' ne by (metis hd_append2)
  have "takeWhile is_space (?g @ m' @ r') = ?g"
    using ne h by (cases m') (auto simp: takeWhile_append dest: set_takeWhileD)
  then show ?thesis using m by (metis append_assoc)
qed

lemma barrier_sub:
  assumes "headed p" "barrier p R" "\<And>rest. free_on p R rest"
  shows "re_sub p t (u @ R @ v) = re_sub p t u @ R @ re_sub p t v"
proof (induction u rule: length_induct)
  case (1 u)
  show ?case
  proof (cases u)
    case Nil
    then show ?thesis using free_sub[OF assms(1) assms(3)] assms(1) by simp
  next
    case (Cons c u')
    show ?thesis
    proof (cases "rest_after p (u @ R @ v)")
      case None
      have "rest_after p u = None"
      proof (rule ccontr)
        assume "rest_after p u \<noteq> None"
        then obtain r0 where r0: "rest_after p u = Some r0" by auto
        then obtain m where "u = m @ r0" using rest_after_suffix by blast
        with det_local[OF headed_det[OF assms(1)], of m r0 "r0 @ R @ v"] r0 None
        show False by simp
      qed
      moreover have "re_sub p t (u' @ R @ v) = re_sub p t u' @ R @ re_sub p t v"
        using 1 Cons by simp
      ultimately show ?thesis using None Cons assms(1)
        by (simp add: headed_sub_Cons del: rest_after.simps)
    next
      case (Some r)
      from barrier_local[OF headed_det[OF assms(1)] assms(2) Some]
      obtain r0 where r0: "r = r0 @ R @ v" "\<And>X. rest_after p (u @ X) = Some (r0 @ X)" by blast
      from r0(2)[of "[]"] have ru: "rest_after p u = Some r0" by simp
      then obtain m where m: "u = m @ r0" using rest_after_suffix by blast
      have len: "length r0 < length u" using headed_consumes[OF assms(1) ru] .
      have g: "takeWhile is_space (u @ R @ v) = takeWhile is_space u"
        using headed_group_local[OF assms(1), of m r0 "r0 @ R @ v"] ru m by simp
      have "re_sub p t (r0 @ R @ v) = re_sub p t r0 @ R @ re_sub p t v" using 1 len by simp
      then show ?thesis using Some ru r0(1) g Cons assms(1)
        by (simp add: headed_sub_Cons del: rest_after.simps)
    qed
  qed
qed

lemma blocks_sub:
  assumes "headed p" "blocks p tq" "white g"
  shows "re_sub p t (u @ expand tq g @ v) = re_sub p t u @ expand tq g @ re_sub p t v"
  using barrier_sub[OF assms(1)] assms(2,3) by (simp add: blocks_def)

text \<open>A match of one pattern contains no start of a match of the other.\<close>

lemma cross_free:
  assumes "fail_all p q" "rest_after q (m @ r) = Some r"
  shows "free_on p m rest"
proof -
  from match_inlang[OF assms(2)] obtain m' where "m @ r = m' @ r" "inlang q m'" by blast
  then have "inlang q m" by simp
  then show ?thesis using free_by_fails assms(1) by (simp add: fail_all_iff)
qed

lemma commute_aux:
  assumes hp: "headed p" and hq: "headed q" and bpq: "blocks p tq" and bqp: "blocks q tp"
    and cpq: "fail_all p q" and cqp: "fail_all q p"
  shows "re_sub p tp (re_sub q tq x) = re_sub q tq (re_sub p tp x)"
proof (induction x rule: length_induct)
  case (1 x)
  show ?case
  proof (cases x)
    case Nil
    then show ?thesis using hp hq by simp
  next
    case (Cons c cs)
    have hit: "re_sub p' tp' (re_sub q' tq' x) = re_sub q' tq' (re_sub p' tp' x)"
      if hp': "headed p'" and hq': "headed q'" and b: "blocks q' tp'" and cr: "fail_all q' p'"
        and ih: "\<And>y. length y < length x \<Longrightarrow>
                re_sub p' tp' (re_sub q' tq' y) = re_sub q' tq' (re_sub p' tp' y)"
        and r: "rest_after p' x = Some r" for p' q' tp' tq' r
    proof -
      obtain m where m: "x = m @ r" using rest_after_suffix[OF r] by blast
      have len: "length r < length x" using headed_consumes[OF hp' r] .
      then have ne: "m \<noteq> []" using m by auto
      let ?g = "takeWhile is_space x"
      have w: "white ?g" using headed_white[OF hp' r] .
      have px: "re_sub p' tp' x = expand tp' ?g @ re_sub p' tp' r"
        using r Cons hp' by (simp add: headed_sub_Cons del: rest_after.simps)
      have fr: "free_on q' (expand tp' ?g) rest" for rest
        using b w by (simp add: blocks_def)
      have 1: "re_sub q' tq' (re_sub p' tp' x) = expand tp' ?g @ re_sub q' tq' (re_sub p' tp' r)"
        unfolding px by (rule free_sub[OF hq' fr])
      have "free_on q' m rest" for rest
        using cross_free[OF cr] r m by simp
      then have qx: "re_sub q' tq' x = m @ re_sub q' tq' r"
        unfolding m by (rule free_sub[OF hq'])
      let ?r' = "re_sub q' tq' r"
      have rm: "rest_after p' (m @ ?r') = Some ?r'"
        using det_local[OF headed_det[OF hp'], of m r ?r'] r m by simp
      have gm: "takeWhile is_space (m @ ?r') = ?g"
        using headed_group_local[OF hp', of m r ?r'] r m by simp
      obtain c' m' where "m = c' # m'" using ne by (cases m) auto
      then have 2: "re_sub p' tp' (m @ ?r') = expand tp' ?g @ re_sub p' tp' ?r'"
        using rm gm hp' by (simp add: headed_sub_Cons del: rest_after.simps)
      show ?thesis using 1 2 qx ih[OF len] by simp
    qed
    show ?thesis
    proof (cases "rest_after p x")
      case (Some r)
      show ?thesis
        by (rule hit[OF hp hq bqp cqp _ Some]) (use 1 in simp)
    next
      case None
      note pn = None
      show ?thesis
      proof (cases "rest_after q x")
        case (Some r)
        have "re_sub q tq (re_sub p tp x) = re_sub p tp (re_sub q tq x)"
          by (rule hit[OF hq hp bpq cpq _ Some]) (use 1 in simp)
        then show ?thesis by simp
      next
        case None
        have a: "rest_after p ([c] @ re_sub q tq cs) = None"
          using blocked_head[OF hp hq bpq, of "[c]" cs] pn Cons by simp
        have b: "rest_after q ([c] @ re_sub p tp cs) = None"
          using blocked_head[OF hq hp bqp, of "[c]" cs] None Cons by simp
        have "re_sub p tp (re_sub q tq cs) = re_sub q tq (re_sub p tp cs)"
          using 1 Cons by simp
        then show ?thesis using a b pn None Cons hp hq
          by (simp add: headed_sub_Cons del: rest_after.simps)
      qed
    qed
  qed
qed

section \<open>Facts about the two patterns\<close>

lemma headed_old: "headed old_pattern"
  by (simp add: headed_def old_pattern_def str_def closed_by_def is_space_def)

lemma headed_engine: "headed engine_old_pattern"
  by (simp add: headed_def engine_old_pattern_def str_def closed_by_def is_space_def)

lemma occurs_nomatch: "headed p \<Longrightarrow> occurs p s \<longleftrightarrow> \<not> nomatch p s"
  by (induction s) (auto simp: headed_match simp del: rest_after.simps)

lemma match_sample_a: "re_match old_pattern sample_a = Some ([10, 32, 32], [])"
  by (simp add: sample_a_def old_pattern_def str_def re_match_def group1_def is_space_def)

lemma match_sample_b: "re_match engine_old_pattern sample_b = Some ([32], [])"
  by (simp add: sample_b_def engine_old_pattern_def str_def re_match_def group1_def is_space_def)

lemma plain_free: "\<not> occurs old_pattern sample_plain" "\<not> occurs engine_old_pattern sample_plain"
  by (simp_all add: sample_plain_def str_def re_match_def old_pattern_def engine_old_pattern_def
      is_space_def)

lemmas a_unf = old_pattern_def[unfolded str_def, simplified]
lemmas ta_unf = new_pattern_def[unfolded str_def, simplified]

lemma space_ascii: "33 \<le> c \<Longrightarrow> c \<le> 132 \<Longrightarrow> is_space c = False"
  by (auto simp: is_space_def)

lemma space_32: "is_space 32" and space_10: "is_space 10"
  by (simp_all add: is_space_def)

lemmas sp = space_ascii space_32 space_10

lemmas b_unf = engine_old_pattern_def[unfolded str_def, simplified]
lemmas tb_unf = engine_new_pattern_def[unfolded str_def, simplified]

lemma blocks_a_a: "blocks old_pattern new_pattern"
  apply (rule blocks_by_check)
  unfolding a_unf ta_unf
   apply (simp only: desc.simps)
   apply (simp add: sp cong: block_congs)
  apply (simp only: desc.simps)
  apply (simp add: sp cong: block_congs)
  done

lemma blocks_a_b: "blocks old_pattern engine_new_pattern"
  apply (rule blocks_by_check)
  unfolding a_unf tb_unf
   apply (simp only: desc.simps)
   apply (simp add: sp cong: block_congs)
  apply (simp only: desc.simps)
  apply (simp add: sp cong: block_congs)
  done

lemma blocks_b_a: "blocks engine_old_pattern new_pattern"
  apply (rule blocks_by_check)
  unfolding b_unf ta_unf
   apply (simp only: desc.simps)
   apply (simp add: sp cong: block_congs)
  apply (simp only: desc.simps)
  apply (simp add: sp cong: block_congs)
  done

lemma blocks_b_b: "blocks engine_old_pattern engine_new_pattern"
  apply (rule blocks_by_check)
  unfolding b_unf tb_unf
   apply (simp only: desc.simps)
   apply (simp add: sp cong: block_congs)
  apply (simp only: desc.simps)
  apply (simp add: sp cong: block_congs)
  done

lemma cross_b_a: "fail_all engine_old_pattern old_pattern"
  unfolding a_unf b_unf
  apply (simp add: sp cong: block_congs)
  done

lemma cross_a_b: "fail_all old_pattern engine_old_pattern"
  unfolding a_unf b_unf
  apply (simp add: sp cong: block_congs)
  done

lemma idem: "fix_content (fix_content c) = fix_content c"
proof -
  let ?y = "rule_a c" and ?z = "rule_b (rule_a c)"
  have "nomatch old_pattern ?y"
    unfolding rule_a_def by (rule sub_keeps_nomatch_self[OF headed_old blocks_a_a])
  then have a: "nomatch old_pattern ?z"
    unfolding rule_b_def by (rule sub_keeps_nomatch_other[OF headed_old headed_engine blocks_a_b])
  have b: "nomatch engine_old_pattern ?z"
    unfolding rule_b_def by (rule sub_keeps_nomatch_self[OF headed_engine blocks_b_b])
  have "rule_a ?z = ?z" unfolding rule_a_def[of ?z] by (rule nomatch_sub[OF headed_old a])
  moreover have "rule_b ?z = ?z" unfolding rule_b_def[of ?z] by (rule nomatch_sub[OF headed_engine b])
  ultimately show ?thesis by (simp add: fix_content_def)
qed

lemma commute: "rule_a (rule_b x) = rule_b (rule_a x)"
  unfolding rule_a_def rule_b_def
  by (rule commute_aux[OF headed_old headed_engine blocks_a_b blocks_b_a cross_a_b cross_b_a])

lemma fix_test_file_Inr:
  "fix_test_file w path = Inr (fixed, w') \<longleftrightarrow>
     (\<exists>c. files w path = Some c \<and>
        (if fix_content c \<noteq> c
         then path \<notin> set (readonly w) \<and> fixed \<and>
              w' = w\<lparr>files := (files w)(path \<mapsto> fix_content c),
                     written := written w @ [path],
                     stdout := stdout w @ str ''Fixed: '' @ path @ [10]\<rparr>
         else \<not> fixed \<and>
              w' = w\<lparr>stdout := stdout w @ str ''No changes needed: '' @ path @ [10]\<rparr>))"
  by (cases "files w path")
    (auto simp: fix_test_file_def read_file_def write_file_def print_def fix_content_def
      rule_a_def rule_b_def Let_def)

lemma match_local:
  assumes "headed p" "re_match p (m @ r) = Some (g, r)"
  shows "re_match p (m @ r') = Some (g, r')"
proof -
  from assms have g: "g = takeWhile is_space (m @ r)" and r: "rest_after p (m @ r) = Some r"
    by (auto simp: headed_match)
  have "rest_after p (m @ r') = Some r'" using det_local[OF headed_det[OF assms(1)] r] .
  moreover have "takeWhile is_space (m @ r') = g"
    using headed_group_local[OF assms(1) r] g by simp
  ultimately show ?thesis using assms(1) by (simp add: headed_match)
qed

lemma rule_a_sample: "rule_a sample_a = expand new_pattern [10, 32, 32]"
proof -
  have "sample_a \<noteq> []" by (simp add: sample_a_def str_def)
  then obtain c cs where s: "sample_a = c # cs" by (cases sample_a) auto
  show ?thesis using match_sample_a headed_old unfolding s rule_a_def
    by (simp add: re_sub.simps(2))
qed

lemma white_sample: "white [10, 32, 32]"
  by (simp add: white_def is_space_def)

lemma fix_sample: "fix_content sample_a = expand new_pattern [10, 32, 32]"
proof -
  have "rule_b ([] @ expand new_pattern [10, 32, 32] @ []) =
        rule_b [] @ expand new_pattern [10, 32, 32] @ rule_b []"
    unfolding rule_b_def by (rule blocks_sub[OF headed_engine blocks_b_a white_sample])
  then show ?thesis using rule_a_sample headed_engine
    by (simp add: fix_content_def rule_b_def)
qed

lemma sample_changed: "fix_content sample_a \<noteq> sample_a"
  unfolding fix_sample by (simp add: new_pattern_def sample_a_def str_def)

lemma gap_sub:
  assumes "headed p" "\<forall>u v. k = u @ v \<and> v \<noteq> [] \<longrightarrow> re_match p (v @ s) = None"
  shows "re_sub p t (k @ s) = k @ re_sub p t s"
proof -
  have "free_on p k s" unfolding free_on_iff using assms by (simp add: headed_match)
  then show ?thesis by (rule free_sub[OF assms(1)])
qed

lemma hit_sub:
  assumes "headed p" "re_match p (m @ r) = Some (g, r)"
  shows "re_sub p t (m @ r) = expand t g @ re_sub p t r"
proof -
  from assms have g: "g = takeWhile is_space (m @ r)" and r: "rest_after p (m @ r) = Some r"
    by (auto simp: headed_match)
  from headed_consumes[OF assms(1) r] obtain c cs where "m @ r = c # cs"
    by (cases "m @ r") auto
  then show ?thesis using r g assms(1) by (simp add: headed_sub_Cons del: rest_after.simps)
qed

lemma white_group: "headed p \<Longrightarrow> re_match p s = Some (g, r) \<Longrightarrow> white g"
  using headed_white by (auto simp: headed_match)

lemma segments_b:
  "\<exists>segs. list_all seg_ok segs \<and> k = concat (map seg_src segs) \<and>
          rule_b k = concat (map seg_out segs)"
proof (induction k rule: length_induct)
  case (1 k)
  show ?case
  proof (cases k)
    case Nil
    have "list_all seg_ok [] \<and> k = concat (map seg_src []) \<and> rule_b k = concat (map seg_out [])"
      using Nil headed_engine by (simp add: rule_b_def)
    then show ?thesis by blast
  next
    case (Cons c cs)
    show ?thesis
    proof (cases "re_match engine_old_pattern k")
      case None
      from 1 Cons obtain segs where s: "list_all seg_ok segs" "cs = concat (map seg_src segs)"
        "rule_b cs = concat (map seg_out segs)" by auto
      have "rule_b k = c # rule_b cs"
        using None Cons headed_engine
        by (auto simp: rule_b_def headed_sub_Cons headed_match simp del: rest_after.simps)
      then have "list_all seg_ok (Keep [c] # segs) \<and> k = concat (map seg_src (Keep [c] # segs)) \<and>
          rule_b k = concat (map seg_out (Keep [c] # segs))"
        using s Cons by simp
      then show ?thesis by blast
    next
      case (Some gr)
      obtain g r where gr: "gr = (g, r)" by (cases gr)
      with Some have r: "rest_after engine_old_pattern k = Some r"
        by (auto simp: headed_match[OF headed_engine])
      obtain m where m: "k = m @ r" using rest_after_suffix[OF r] by blast
      have "length r < length k" using headed_consumes[OF headed_engine r] .
      with 1 obtain segs where s: "list_all seg_ok segs" "r = concat (map seg_src segs)"
        "rule_b r = concat (map seg_out segs)" by auto
      have hm: "re_match engine_old_pattern (m @ r) = Some (g, r)" using Some gr m by simp
      have "re_match engine_old_pattern (m @ []) = Some (g, [])"
        by (rule match_local[OF headed_engine hm])
      then have ok: "seg_ok (HitB g m)" by simp
      have "rule_b k = expand engine_new_pattern g @ rule_b r"
        unfolding rule_b_def m by (rule hit_sub[OF headed_engine hm])
      then have "list_all seg_ok (HitB g m # segs) \<and> k = concat (map seg_src (HitB g m # segs)) \<and>
          rule_b k = concat (map seg_out (HitB g m # segs))"
        using s ok m by simp
      then show ?thesis by blast
    qed
  qed
qed

section \<open>The loop over the directory\<close>

lemma path_join_inj: "path_join (str ''tests'') a = path_join (str ''tests'') b \<Longrightarrow> a = b"
  by (cases a; cases b) (auto simp: path_join_def str_def split: if_splits)

lemma main_loop_spec:
  "distinct names \<Longrightarrow> main_loop names n w = Inr (n', w') \<Longrightarrow>
     n' = n + length (filter (\<lambda>f. endswith f (str ''.rs'') \<and> changed w f) names) \<and>
     stdout w' = stdout w @ concat (map (report w) (filter (\<lambda>f. endswith f (str ''.rs'')) names)) \<and>
     written w' = written w @ map (path_join (str ''tests''))
        (filter (\<lambda>f. endswith f (str ''.rs'') \<and> changed w f) names)"
proof (induction names arbitrary: n w)
  case Nil
  then show ?case by simp
next
  case (Cons f rest)
  show ?case
  proof (cases "endswith f (str ''.rs'')")
    case False
    with Cons show ?thesis by simp
  next
    case True
    let ?p = "path_join (str ''tests'') f"
    from Cons.prems(2) True obtain fixed w1 where
      s1: "fix_test_file w ?p = Inr (fixed, w1)"
      and s2: "main_loop rest (if fixed then n + 1 else n) w1 = Inr (n', w')"
      by (auto split: sum.splits)
    from s1 obtain c where c: "files w ?p = Some c"
      and w1: "if fix_content c \<noteq> c
         then ?p \<notin> set (readonly w) \<and> fixed \<and>
              w1 = w\<lparr>files := (files w)(?p \<mapsto> fix_content c),
                     written := written w @ [?p],
                     stdout := stdout w @ str ''Fixed: '' @ ?p @ [10]\<rparr>
         else \<not> fixed \<and>
              w1 = w\<lparr>stdout := stdout w @ str ''No changes needed: '' @ ?p @ [10]\<rparr>"
      unfolding fix_test_file_Inr by blast
    have ch: "changed w f \<longleftrightarrow> fix_content c \<noteq> c" using c by (simp add: changed_def)
    have fx: "fixed \<longleftrightarrow> changed w f" using w1 ch by (auto split: if_splits)
    have out1: "stdout w1 = stdout w @ report w f"
      using w1 ch by (auto simp: report_def split: if_splits)
    have wr1: "written w1 = written w @ (if changed w f then [?p] else [])"
      using w1 ch by (auto split: if_splits)
    have same: "changed w1 g = changed w g \<and> report w1 g = report w g" if "g \<in> set rest" for g
    proof -
      from that Cons.prems(1) have "g \<noteq> f" by auto
      then have "path_join (str ''tests'') g \<noteq> ?p" using path_join_inj by blast
      then have "files w1 (path_join (str ''tests'') g) = files w (path_join (str ''tests'') g)"
        using w1 by (auto split: if_splits)
      then show ?thesis by (simp add: changed_def report_def)
    qed
    have f1: "filter (\<lambda>f. endswith f (str ''.rs'') \<and> changed w1 f) rest =
              filter (\<lambda>f. endswith f (str ''.rs'') \<and> changed w f) rest"
      by (rule filter_cong) (use same in auto)
    have f2: "map (report w1) (filter (\<lambda>f. endswith f (str ''.rs'')) rest) =
              map (report w) (filter (\<lambda>f. endswith f (str ''.rs'')) rest)"
      by (rule map_cong) (use same in auto)
    from Cons.prems(1) have "distinct rest" by simp
    from Cons.IH[OF this s2] show ?thesis
      unfolding f1 f2 using True fx out1 wr1 by auto
  qed
qed

lemma main_spec:
  assumes "listing w = Some names" "distinct names" "main w = Inr w'"
  shows "stdout w' =
      stdout w @ concat (map (report w) (filter (\<lambda>f. endswith f (str ''.rs'')) names)) @
      [10] @ str ''Fixed '' @
      show_nat (length (filter (\<lambda>f. endswith f (str ''.rs'') \<and> changed w f) names)) @
      str '' test files'' @ [10]"
proof -
  from assms(1,3) obtain n w1 where l: "main_loop names 0 w = Inr (n, w1)"
    and w': "w' = print w1 (str ''\<newline>Fixed '' @ show_nat n @ str '' test files'')"
    by (auto simp: main_def split: sum.splits)
  from main_loop_spec[OF assms(2) l] w' show ?thesis
    by (simp add: print_def str_def)
qed

lemma fix_test_file_eq:
  "files w path = Some c \<Longrightarrow> fix_test_file w path =
     (if fix_content c \<noteq> c
      then (if path \<in> set (readonly w) then Inl OSError
            else Inr (True, w\<lparr>files := (files w)(path \<mapsto> fix_content c),
                     written := written w @ [path],
                     stdout := stdout w @ str ''Fixed: '' @ path @ [10]\<rparr>))
      else Inr (False, w\<lparr>stdout := stdout w @ str ''No changes needed: '' @ path @ [10]\<rparr>))"
  by (auto simp: fix_test_file_def read_file_def write_file_def print_def fix_content_def
      rule_a_def rule_b_def Let_def)

lemma fix_plain: "fix_content sample_plain = sample_plain"
  using plain_free
  by (simp add: fix_content_def rule_a_def rule_b_def occurs_nomatch headed_old headed_engine
      nomatch_sub)

lemma main_world_dir:
  "main world_dir =
     Inr (world_dir\<lparr>files := (files world_dir)(str ''tests/a.rs'' \<mapsto> fix_content sample_a),
            written := [str ''tests/a.rs''],
            stdout := str ''Fixed: tests/a.rs\<newline>No changes needed: tests/plain.rs\<newline>\<newline>Fixed 1 test files\<newline>''\<rparr>)"
proof -
  let ?w1 = "world_dir\<lparr>files := (files world_dir)(str ''tests/a.rs'' \<mapsto> fix_content sample_a),
                     written := written world_dir @ [str ''tests/a.rs''],
                     stdout := stdout world_dir @ str ''Fixed: '' @ str ''tests/a.rs'' @ [10]\<rparr>"
  have fa: "files world_dir (str ''tests/a.rs'') = Some sample_a"
    by (simp add: world_dir_def str_def)
  have s1: "fix_test_file world_dir (str ''tests/a.rs'') = Inr (True, ?w1)"
    using fix_test_file_eq[OF fa] sample_changed by (simp add: world_dir_def)
  have fp: "files ?w1 (str ''tests/plain.rs'') = Some sample_plain"
    by (simp add: world_dir_def str_def)
  have s2: "fix_test_file ?w1 (str ''tests/plain.rs'') =
      Inr (False, ?w1\<lparr>stdout := stdout ?w1 @ str ''No changes needed: '' @ str ''tests/plain.rs'' @ [10]\<rparr>)"
    using fix_test_file_eq[OF fp] fix_plain by simp
  have p1: "path_join (str ''tests'') (str ''a.rs'') = str ''tests/a.rs''"
    and p2: "path_join (str ''tests'') (str ''plain.rs'') = str ''tests/plain.rs''"
    by (simp_all add: path_join_def str_def)
  have e1: "endswith (str ''a.rs'') (str ''.rs'')" and e2: "\<not> endswith (str ''notes.txt'') (str ''.rs'')"
    and e3: "endswith (str ''plain.rs'') (str ''.rs'')"
    by (simp_all add: endswith_def str_def)
  have "main_loop [str ''a.rs'', str ''notes.txt'', str ''plain.rs''] 0 world_dir =
      Inr (1, ?w1\<lparr>stdout := stdout ?w1 @ str ''No changes needed: '' @ str ''tests/plain.rs'' @ [10]\<rparr>)"
    using s1 s2 by (simp add: p1 p2 e1 e2 e3)
  moreover have "listing world_dir = Some [str ''a.rs'', str ''notes.txt'', str ''plain.rs'']"
    by (simp add: world_dir_def)
  ultimately show ?thesis
    by (simp add: main_def print_def show_nat.simps world_dir_def str_def)
qed

section \<open>Lines of the replacement text\<close>

lemma split_lines_nonempty: "split_lines s \<noteq> []"
  by (induction s) (auto split: list.splits)

lemma split_lines_no_feed: "10 \<notin> set a \<Longrightarrow> split_lines (a @ s) = (a @ hd (split_lines s)) # tl (split_lines s)"
proof (induction a)
  case Nil
  then show ?case using split_lines_nonempty[of s] by simp
next
  case (Cons c a)
  then show ?case by (auto split: list.splits)
qed

lemma split_lines_line: "10 \<notin> set a \<Longrightarrow> split_lines (a @ 10 # s) = a # split_lines s"
  by (simp add: split_lines_no_feed)

lemma split_lines_last: "10 \<notin> set a \<Longrightarrow> split_lines a = [a]"
  using split_lines_no_feed[of a "[]"] by simp

lemma line_shaped_new: "line_shaped new_pattern"
  by (simp add: new_pattern_def str_def)

section \<open>A sample without leading white space\<close>

lemma nomatch_by_check:
  assumes "headed p" "fail_all p [Lits s]"
  shows "nomatch p s"
proof -
  have i: "inlang [Lits s] s" by simp
  have "list_all (fails p) (states [Lits s])" using assms(2) by (simp only: fail_all_iff)
  then have "free_on p s []" using i by (rule free_by_fails)
  moreover have "nomatch p []" using assms(1) by (simp add: headed_rest)
  ultimately show ?thesis using nomatch_append[of p s "[]"] by simp
qed

lemmas bare_unf = sample_bare_def[unfolded str_def, simplified]

lemma bare_free: "nomatch old_pattern sample_bare" "nomatch engine_old_pattern sample_bare"
proof -
  show "nomatch old_pattern sample_bare"
    apply (rule nomatch_by_check[OF headed_old])
    unfolding a_unf bare_unf
    apply (simp add: sp cong: block_congs)
    done
  show "nomatch engine_old_pattern sample_bare"
    apply (rule nomatch_by_check[OF headed_engine])
    unfolding b_unf bare_unf
    apply (simp add: sp cong: block_congs)
    done
qed

lemma fix_bare: "fix_content sample_bare = sample_bare"
  using bare_free
  by (simp add: fix_content_def rule_a_def rule_b_def headed_old headed_engine nomatch_sub)

lemma bare_shape: "sample_a = [10, 32, 32] @ sample_bare"
  by (simp add: sample_a_def sample_bare_def str_def)

section \<open>An occurrence on a line of its own\<close>

lemma feed_group_lines:
  "line_shaped t \<Longrightarrow> 10 \<notin> set h \<Longrightarrow>
   length (split_lines (expand t (10 # h))) = length t \<and>
   (\<exists>l ls. split_lines (expand t (10 # h)) = [] # l # ls)"
proof (induction t rule: line_shaped.induct)
  case (1 l)
  then have "split_lines (h @ l) = [h @ l]" by (simp add: split_lines_last)
  then show ?case by simp
next
  case (2 l v va)
  then have l: "l = butlast l @ [10]" by (metis append_butlast_last_id line_shaped.simps(2))
  define X where "X = expand (v # va) (10 # h)"
  have "expand (G1 # T l # v # va) (10 # h) = 10 # (h @ l @ X)"
    by (simp add: X_def)
  also have "h @ l @ X = (h @ butlast l) @ 10 # X"
    by (subst l) simp
  finally have e: "expand (G1 # T l # v # va) (10 # h) = 10 # ((h @ butlast l) @ 10 # X)" .
  have nf: "10 \<notin> set (h @ butlast l)" using 2 by simp
  have "split_lines (expand (G1 # T l # v # va) (10 # h)) =
      [] # split_lines ((h @ butlast l) @ 10 # X)"
    unfolding e by simp
  also have "split_lines ((h @ butlast l) @ 10 # X) = (h @ butlast l) # split_lines X"
    using nf by (rule split_lines_line)
  finally have "split_lines (expand (G1 # T l # v # va) (10 # h)) =
      [] # (h @ butlast l) # split_lines X" .
  moreover have "length (split_lines X) = length (v # va)"
    using 2 by (simp add: X_def)
  ultimately show ?case by simp
qed simp_all

lemma match_own_line: "re_match old_pattern sample_own_line = Some (10 # str ''        '', [])"
  by (simp add: sample_own_line_def old_pattern_def str_def re_match_def group1_def is_space_def)

lemma fix_own_line: "fix_content sample_own_line = expand new_pattern (10 # str ''        '')"
proof -
  let ?g = "10 # str ''        ''"
  have w: "white ?g" by (simp add: white_def str_def is_space_def)
  have "sample_own_line \<noteq> []" by (simp add: sample_own_line_def str_def)
  then obtain c cs where s: "sample_own_line = c # cs" by (cases sample_own_line) auto
  have a: "rule_a sample_own_line = expand new_pattern ?g"
    using match_own_line headed_old unfolding s rule_a_def by (simp add: re_sub.simps(2))
  have "rule_b ([] @ expand new_pattern ?g @ []) = rule_b [] @ expand new_pattern ?g @ rule_b []"
    unfolding rule_b_def by (rule blocks_sub[OF headed_engine blocks_b_a w])
  then show ?thesis using a headed_engine by (simp add: fix_content_def rule_b_def)
qed

section \<open>The claims\<close>

text \<open>
  C1: where the scan of rule A reaches a match (no earlier position of the text matches),
  the transformed content has, in place of the match, the fifteen lines of the new text,
  each after a copy of group 1: the Ok branch logs availability and calls is_destroyed and
  get_active_config_id, the Err branch is two comments and "return Err(e);". What precedes
  the match is only subject to rule B, and the transform continues after the match.
\<close>

theorem occurrence_replaced:
  assumes "re_match old_pattern (m @ r) = Some (g, r)"
    and "\<forall>u v. k = u @ v \<and> v \<noteq> [] \<longrightarrow> re_match old_pattern (v @ m @ r) = None"
  shows \<open>fix_content (k @ m @ r) =
      rule_b k @
      (g @ str ''match env_result {\<newline>'' @
       g @ str ''    Ok(env) => {\<newline>'' @
       g @ str ''        // Test that environment is available for testing\<newline>'' @
       g @ str ''        eprintln!("Environment available for testing");\<newline>'' @
       g @ str ''\<newline>'' @
       g @ str ''        // Can test read-only operations like:\<newline>'' @
       g @ str ''        let _is_destroyed = env.is_destroyed();\<newline>'' @
       g @ str ''        let _active_config_result = env.get_active_config_id();\<newline>'' @
       g @ str ''    }\<newline>'' @
       g @ str ''    Err(e) => {\<newline>'' @
       g @ str ''        // With proper synchronization, initialization should succeed\<newline>'' @
       g @ str ''        // Any initialization failure is now a test failure\<newline>'' @
       g @ str ''        return Err(e);\<newline>'' @
       g @ str ''    }\<newline>'' @
       g @ str ''}'') @
      fix_content r\<close>
proof -
  have a: "rule_a (k @ m @ r) = k @ expand new_pattern g @ rule_a r"
    unfolding rule_a_def
    using gap_sub[OF headed_old assms(2)] hit_sub[OF headed_old assms(1)] by simp
  have "rule_b (k @ expand new_pattern g @ rule_a r) =
        rule_b k @ expand new_pattern g @ rule_b (rule_a r)"
    unfolding rule_b_def
    by (rule blocks_sub[OF headed_engine blocks_b_a white_group[OF headed_old assms(1)]])
  then have "fix_content (k @ m @ r) = rule_b k @ expand new_pattern g @ fix_content r"
    using a by (simp add: fix_content_def)
  then show ?thesis by (simp add: new_pattern_def)
qed

theorem occurrence_replaced_witness:
  \<open>re_match old_pattern (sample_a @ []) = Some ([10, 32, 32], []) \<and>
   re_match old_pattern (str ''x'' @ sample_a @ []) = None \<and>
   fix_content (str ''x'' @ sample_a @ []) =
      str ''x\<newline>  match env_result {\<newline>\<newline>      Ok(env) => {\<newline>\<newline>          // Test that environment is available for testing\<newline>\<newline>          eprintln!("Environment available for testing");\<newline>\<newline>  \<newline>\<newline>          // Can test read-only operations like:\<newline>\<newline>          let _is_destroyed = env.is_destroyed();\<newline>\<newline>          let _active_config_result = env.get_active_config_id();\<newline>\<newline>      }\<newline>\<newline>      Err(e) => {\<newline>\<newline>          // With proper synchronization, initialization should succeed\<newline>\<newline>          // Any initialization failure is now a test failure\<newline>\<newline>          return Err(e);\<newline>\<newline>      }\<newline>\<newline>  }''\<close>
proof -
  have m: "re_match old_pattern (sample_a @ []) = Some ([10, 32, 32], [])"
    using match_sample_a by simp
  have n: "\<forall>u v. str ''x'' = u @ v \<and> v \<noteq> [] \<longrightarrow> re_match old_pattern (v @ sample_a @ []) = None"
  proof (intro allI impI)
    fix u v :: pystr assume "str ''x'' = u @ v \<and> v \<noteq> []"
    then have "v = [120]" by (cases u) (auto simp: str_def)
    then show "re_match old_pattern (v @ sample_a @ []) = None"
      using headed_old by (simp add: headed_match headed_rest is_space_def)
  qed
  have b: "rule_b (str ''x'') = str ''x''"
    using headed_engine by (simp add: rule_b_def str_def headed_sub_Cons headed_rest is_space_def)
  have e: "fix_content [] = []" using headed_old headed_engine
    by (simp add: fix_content_def rule_a_def rule_b_def)
  have x: "re_match old_pattern (str ''x'' @ sample_a @ []) = None"
    using headed_old by (simp add: headed_match headed_rest is_space_def str_def)
  show ?thesis
    using occurrence_replaced[OF m n] m x b e by (simp add: str_def)
qed

text \<open>
  C2: when the operation returns, the file was written exactly if the content after both
  substitutions differs from the content read; then the file holds the new content, and
  otherwise neither the files nor the record of writes changed.
\<close>

theorem write_iff_changed:
  assumes "fix_test_file w file_path = Inr (fixed, w')"
  shows "\<exists>content. files w file_path = Some content \<and>
           (fixed \<longleftrightarrow> fix_content content \<noteq> content) \<and>
           (written w' \<noteq> written w \<longleftrightarrow> fix_content content \<noteq> content) \<and>
           (if fix_content content \<noteq> content
            then files w' = (files w)(file_path \<mapsto> fix_content content) \<and>
                 written w' = written w @ [file_path]
            else files w' = files w \<and> written w' = written w)"
proof -
  from assms obtain c where c: "files w file_path = Some c"
    and w': "if fix_content c \<noteq> c
         then file_path \<notin> set (readonly w) \<and> fixed \<and>
              w' = w\<lparr>files := (files w)(file_path \<mapsto> fix_content c),
                     written := written w @ [file_path],
                     stdout := stdout w @ str ''Fixed: '' @ file_path @ [10]\<rparr>
         else \<not> fixed \<and>
              w' = w\<lparr>stdout := stdout w @ str ''No changes needed: '' @ file_path @ [10]\<rparr>"
    unfolding fix_test_file_Inr by blast
  show ?thesis
  proof (cases "fix_content c = c")
    case True
    with w' have "\<not> fixed" "files w' = files w" "written w' = written w" by simp_all
    with c True show ?thesis by simp
  next
    case False
    with w' have "fixed" "files w' = (files w)(file_path \<mapsto> fix_content c)"
      "written w' = written w @ [file_path]" by simp_all
    with c False show ?thesis by simp
  qed
qed

theorem write_iff_changed_witness:
  "fix_test_file world_a (str ''tests/a.rs'') =
     Inr (True, world_a\<lparr>files := (files world_a)(str ''tests/a.rs'' \<mapsto> fix_content sample_a),
                         written := [str ''tests/a.rs''],
                         stdout := str ''Fixed: tests/a.rs\<newline>''\<rparr>) \<and>
   (\<exists>content. files world_a (str ''tests/a.rs'') = Some content \<and>
      fix_content content \<noteq> content)"
proof -
  have f: "files world_a (str ''tests/a.rs'') = Some sample_a" by (simp add: world_a_def)
  have r: "fix_test_file world_a (str ''tests/a.rs'') =
     Inr (True, world_a\<lparr>files := (files world_a)(str ''tests/a.rs'' \<mapsto> fix_content sample_a),
                         written := [str ''tests/a.rs''],
                         stdout := str ''Fixed: tests/a.rs\<newline>''\<rparr>)"
    unfolding fix_test_file_Inr using f sample_changed by (simp add: world_a_def str_def)
  from write_iff_changed[OF r] r show ?thesis by auto
qed

text \<open>
  C3: the transform is idempotent, and a second run of the operation on the file a first
  run left behind reports "No changes needed" and writes nothing.
\<close>

theorem fix_idempotent:
  "fix_content (fix_content content) = fix_content content \<and>
   (fix_test_file w file_path = Inr (fixed, w') \<longrightarrow>
      fix_test_file w' file_path =
        Inr (False, w'\<lparr>stdout := stdout w' @ str ''No changes needed: '' @ file_path @ [10]\<rparr>))"
proof
  show "fix_content (fix_content content) = fix_content content" by (rule idem)
  show "fix_test_file w file_path = Inr (fixed, w') \<longrightarrow>
      fix_test_file w' file_path =
        Inr (False, w'\<lparr>stdout := stdout w' @ str ''No changes needed: '' @ file_path @ [10]\<rparr>)"
  proof
    assume "fix_test_file w file_path = Inr (fixed, w')"
    then obtain c where c: "files w file_path = Some c"
      and w': "if fix_content c \<noteq> c
         then file_path \<notin> set (readonly w) \<and> fixed \<and>
              w' = w\<lparr>files := (files w)(file_path \<mapsto> fix_content c),
                     written := written w @ [file_path],
                     stdout := stdout w @ str ''Fixed: '' @ file_path @ [10]\<rparr>
         else \<not> fixed \<and>
              w' = w\<lparr>stdout := stdout w @ str ''No changes needed: '' @ file_path @ [10]\<rparr>"
      unfolding fix_test_file_Inr by blast
    have "files w' file_path = Some (fix_content c)"
    proof (cases "fix_content c = c")
      case True
      with w' c show ?thesis by simp
    next
      case False
      with w' show ?thesis by simp
    qed
    then show "fix_test_file w' file_path =
        Inr (False, w'\<lparr>stdout := stdout w' @ str ''No changes needed: '' @ file_path @ [10]\<rparr>)"
      unfolding fix_test_file_Inr by (simp add: idem)
  qed
qed

theorem fix_idempotent_witness:
  "fix_content (fix_content sample_a) = fix_content sample_a \<and>
   fix_content sample_a \<noteq> sample_a \<and>
   (\<exists>w'. fix_test_file world_a (str ''tests/a.rs'') = Inr (True, w') \<and>
      fix_test_file w' (str ''tests/a.rs'') =
        Inr (False, w'\<lparr>stdout := stdout w' @ str ''No changes needed: tests/a.rs\<newline>''\<rparr>))"
proof -
  have f: "files world_a (str ''tests/a.rs'') = Some sample_a" by (simp add: world_a_def)
  obtain w' where r: "fix_test_file world_a (str ''tests/a.rs'') = Inr (True, w')"
    unfolding fix_test_file_Inr using f sample_changed by (simp add: world_a_def)
  from fix_idempotent[of sample_a world_a "str ''tests/a.rs''" True w'] r sample_changed
  show ?thesis by (auto simp: str_def)
qed

text \<open>
  C4: the code does not do what the claim says. For an occurrence that stands on its own
  line, indented by eight spaces, group 1 is the line feed together with the eight spaces;
  every line of the template is emitted after a copy of it, so the replacement text has
  thirty lines instead of fifteen, begins with an empty line, and its lines do not all
  begin with the eight spaces, nor with the captured text.
\<close>

theorem prefix_on_every_line_fails:
  "re_match old_pattern sample_own_line = Some (10 # str ''        '', []) \<and>
   fix_content sample_own_line = expand new_pattern (10 # str ''        '') \<and>
   length (split_lines (fix_content sample_own_line)) = 30 \<and>
   take 2 (split_lines (fix_content sample_own_line)) = [] # [str ''        match env_result {''] \<and>
   \<not> list_all (starts_with (str ''        '')) (split_lines (fix_content sample_own_line)) \<and>
   \<not> list_all (starts_with (10 # str ''        '')) (split_lines (fix_content sample_own_line))"
proof -
  let ?h = "str ''        ''"
  have h: "10 \<notin> set ?h" by (simp add: str_def)
  have n: "length new_pattern = 30" by (simp add: new_pattern_def)
  from feed_group_lines[OF line_shaped_new h] n
  obtain l ls where ll: "split_lines (expand new_pattern (10 # ?h)) = [] # l # ls"
    and len: "length (split_lines (expand new_pattern (10 # ?h))) = 30" by auto
  obtain s where e: "expand new_pattern (10 # ?h) =
      10 # (?h @ str ''match env_result {'') @ 10 # s"
    by (simp add: new_pattern_def str_def)
  have "10 \<notin> set (?h @ str ''match env_result {'')" by (simp add: str_def)
  then have "split_lines ((?h @ str ''match env_result {'') @ 10 # s) =
      (?h @ str ''match env_result {'') # split_lines s"
    by (rule split_lines_line)
  then have "split_lines (expand new_pattern (10 # ?h)) =
      [] # (?h @ str ''match env_result {'') # split_lines s"
    unfolding e by simp
  then have t: "take 2 (split_lines (expand new_pattern (10 # ?h))) =
      [] # [str ''        match env_result {'']"
    by (simp add: str_def)
  show ?thesis
    unfolding fix_own_line using match_own_line ll len t
    by (simp add: starts_with_def str_def)
qed

text \<open>
  C5: the number in the summary line is the number of entries whose name ends with ".rs"
  and whose content differs after both rules; an entry whose content has no occurrence of
  either pattern is not among them.
\<close>

theorem fixed_count:
  assumes "listing w = Some names" and "distinct names" and "main w = Inr w'"
  shows "(\<exists>out. stdout w' = out @ str ''Fixed '' @
            show_nat (length (filter (\<lambda>f. endswith f (str ''.rs'') \<and> changed w f) names)) @
            str '' test files'' @ [10]) \<and>
         (\<forall>f c. files w (path_join (str ''tests'') f) = Some c \<and>
            \<not> occurs old_pattern c \<and> \<not> occurs engine_old_pattern c \<longrightarrow> \<not> changed w f)"
proof
  show "\<exists>out. stdout w' = out @ str ''Fixed '' @
            show_nat (length (filter (\<lambda>f. endswith f (str ''.rs'') \<and> changed w f) names)) @
            str '' test files'' @ [10]"
    unfolding main_spec[OF assms]
    by (rule exI[of _ "stdout w @
        concat (map (report w) (filter (\<lambda>f. endswith f (str ''.rs'')) names)) @ [10]"]) simp
  show "\<forall>f c. files w (path_join (str ''tests'') f) = Some c \<and>
            \<not> occurs old_pattern c \<and> \<not> occurs engine_old_pattern c \<longrightarrow> \<not> changed w f"
    by (auto simp: changed_def fix_content_def rule_a_def rule_b_def occurs_nomatch
        headed_old headed_engine nomatch_sub)
qed

theorem fixed_count_witness:
  "listing world_dir = Some [str ''a.rs'', str ''notes.txt'', str ''plain.rs''] \<and>
   distinct [str ''a.rs'', str ''notes.txt'', str ''plain.rs''] \<and>
   (\<exists>w'. main world_dir = Inr w' \<and>
      (\<exists>out. stdout w' = out @ str ''Fixed 1 test files\<newline>'')) \<and>
   length (filter (\<lambda>f. endswith f (str ''.rs'') \<and> changed world_dir f)
      [str ''a.rs'', str ''notes.txt'', str ''plain.rs'']) = 1 \<and>
   \<not> changed world_dir (str ''plain.rs'')"
proof -
  have l: "listing world_dir = Some [str ''a.rs'', str ''notes.txt'', str ''plain.rs'']"
    by (simp add: world_dir_def)
  have d: "distinct [str ''a.rs'', str ''notes.txt'', str ''plain.rs'']"
    by (simp add: str_def)
  have p1: "path_join (str ''tests'') (str ''a.rs'') = str ''tests/a.rs''"
    and p2: "path_join (str ''tests'') (str ''plain.rs'') = str ''tests/plain.rs''"
    by (simp_all add: path_join_def str_def)
  have fa: "files world_dir (str ''tests/a.rs'') = Some sample_a"
    and fp: "files world_dir (str ''tests/plain.rs'') = Some sample_plain"
    by (simp_all add: world_dir_def str_def)
  have c1: "changed world_dir (str ''a.rs'')"
    using sample_changed by (simp add: changed_def p1 fa)
  have c3: "\<not> changed world_dir (str ''plain.rs'')"
    using fix_plain by (simp add: changed_def p2 fp)
  have e2: "\<not> endswith (str ''notes.txt'') (str ''.rs'')"
    and e1: "endswith (str ''a.rs'') (str ''.rs'')"
    by (simp_all add: endswith_def str_def)
  have n: "length (filter (\<lambda>f. endswith f (str ''.rs'') \<and> changed world_dir f)
      [str ''a.rs'', str ''notes.txt'', str ''plain.rs'']) = 1"
    using c1 c3 e1 e2 by simp
  from fixed_count[OF l d main_world_dir] n
  have "\<exists>out. stdout (world_dir\<lparr>files := (files world_dir)(str ''tests/a.rs'' \<mapsto> fix_content sample_a),
            written := [str ''tests/a.rs''],
            stdout := str ''Fixed: tests/a.rs\<newline>No changes needed: tests/plain.rs\<newline>\<newline>Fixed 1 test files\<newline>''\<rparr>) =
          out @ str ''Fixed '' @ show_nat 1 @ str '' test files'' @ [10]"
    by simp
  then have "\<exists>out. stdout (world_dir\<lparr>files := (files world_dir)(str ''tests/a.rs'' \<mapsto> fix_content sample_a),
            written := [str ''tests/a.rs''],
            stdout := str ''Fixed: tests/a.rs\<newline>No changes needed: tests/plain.rs\<newline>\<newline>Fixed 1 test files\<newline>''\<rparr>) =
          out @ str ''Fixed 1 test files\<newline>''"
    by (simp add: show_nat.simps str_def)
  then have "\<exists>w'. main world_dir = Inr w' \<and>
      (\<exists>out. stdout w' = out @ str ''Fixed 1 test files\<newline>'')"
    using main_world_dir by simp
  with l d n c3 show ?thesis by simp
qed

text \<open>
  C6: a candidate file without any occurrence of either pattern is left as it is: both
  substitutions return their input, the operation returns normally with False, nothing is
  written and the only effect is the line "No changes needed: <path>".
\<close>

theorem no_occurrence_no_change:
  assumes "files w file_path = Some content"
    and "\<not> occurs old_pattern content" and "\<not> occurs engine_old_pattern content"
  shows "re_sub old_pattern new_pattern content = content \<and>
         re_sub engine_old_pattern engine_new_pattern content = content \<and>
         fix_test_file w file_path =
           Inr (False, w\<lparr>stdout := stdout w @ str ''No changes needed: '' @ file_path @ [10]\<rparr>)"
proof -
  have a: "re_sub old_pattern new_pattern content = content"
    using assms(2) by (simp add: occurs_nomatch headed_old nomatch_sub)
  have b: "re_sub engine_old_pattern engine_new_pattern content = content"
    using assms(3) by (simp add: occurs_nomatch headed_engine nomatch_sub)
  show ?thesis using a b assms(1)
    by (simp add: fix_test_file_def read_file_def print_def)
qed

theorem no_occurrence_no_change_witness:
  "files world_plain (str ''tests/plain.rs'') = Some sample_plain \<and>
   \<not> occurs old_pattern sample_plain \<and> \<not> occurs engine_old_pattern sample_plain \<and>
   fix_test_file world_plain (str ''tests/plain.rs'') =
     Inr (False, world_plain\<lparr>stdout := str ''No changes needed: tests/plain.rs\<newline>''\<rparr>)"
proof -
  have f: "files world_plain (str ''tests/plain.rs'') = Some sample_plain"
    by (simp add: world_plain_def)
  show ?thesis
    using no_occurrence_no_change[OF f plain_free] f plain_free
    by (simp add: world_plain_def str_def)
qed

text \<open>
  C7: the two rules commute on every content; and an expansion of either template is inert
  for the other rule, wherever it stands: the other rule's scan rewrites what precedes and
  what follows it as if each stood alone, and copies the expansion.
\<close>

theorem rules_independent:
  "rule_a (rule_b content) = rule_b (rule_a content) \<and>
   (g \<noteq> [] \<and> list_all is_space g \<longrightarrow>
      rule_b (u @ expand new_pattern g @ v) = rule_b u @ expand new_pattern g @ rule_b v \<and>
      rule_a (u @ expand engine_new_pattern g @ v) =
        rule_a u @ expand engine_new_pattern g @ rule_a v)"
proof (intro conjI impI)
  show "rule_a (rule_b content) = rule_b (rule_a content)" by (rule commute)
next
  assume "g \<noteq> [] \<and> list_all is_space g"
  then have w: "white g" by (simp add: white_def)
  show "rule_b (u @ expand new_pattern g @ v) = rule_b u @ expand new_pattern g @ rule_b v"
    unfolding rule_b_def by (rule blocks_sub[OF headed_engine blocks_b_a w])
next
  assume "g \<noteq> [] \<and> list_all is_space g"
  then have w: "white g" by (simp add: white_def)
  show "rule_a (u @ expand engine_new_pattern g @ v) =
        rule_a u @ expand engine_new_pattern g @ rule_a v"
    unfolding rule_a_def by (rule blocks_sub[OF headed_old blocks_a_b w])
qed

theorem rules_independent_witness:
  "rule_a (rule_b sample_a) = rule_b (rule_a sample_a) \<and>
   [32] \<noteq> [] \<and> list_all is_space [32] \<and>
   rule_b (sample_a @ expand new_pattern [32] @ sample_b) =
     rule_b sample_a @ expand new_pattern [32] @ rule_b sample_b \<and>
   rule_a (sample_a @ expand engine_new_pattern [32] @ sample_b) =
     rule_a sample_a @ expand engine_new_pattern [32] @ rule_a sample_b"
  using rules_independent[of sample_a "[32]" sample_a sample_b]
  by (simp add: is_space_def)

text \<open>
  C8: when the run completes, the console holds, in the order of the directory listing, one
  line for every entry whose name ends with ".rs" ("Fixed: <path>" if its content differs
  after both rules, else "No changes needed: <path>"), then an empty line and the line
  "Fixed <N> test files"; other entries add nothing. The files written are exactly those
  reported as fixed.
\<close>

theorem console_output:
  assumes "listing w = Some names" and "distinct names" and "main w = Inr w'"
  shows "stdout w' =
      stdout w @ concat (map (report w) (filter (\<lambda>f. endswith f (str ''.rs'')) names)) @
      [10] @ str ''Fixed '' @
      show_nat (length (filter (\<lambda>f. endswith f (str ''.rs'') \<and> changed w f) names)) @
      str '' test files'' @ [10]"
  by (rule main_spec[OF assms])

theorem console_output_witness:
  "listing world_dir = Some [str ''a.rs'', str ''notes.txt'', str ''plain.rs''] \<and>
   distinct [str ''a.rs'', str ''notes.txt'', str ''plain.rs''] \<and>
   (\<exists>w'. main world_dir = Inr w' \<and> stdout w' =
      str ''Fixed: tests/a.rs\<newline>No changes needed: tests/plain.rs\<newline>\<newline>Fixed 1 test files\<newline>'')"
proof -
  have l: "listing world_dir = Some [str ''a.rs'', str ''notes.txt'', str ''plain.rs'']"
    by (simp add: world_dir_def)
  have d: "distinct [str ''a.rs'', str ''notes.txt'', str ''plain.rs'']"
    by (simp add: str_def)
  from console_output[OF l d main_world_dir] l d main_world_dir show ?thesis by simp
qed

text \<open>
  C9: the content can be cut into pieces such that every piece is either kept or is, on its
  own, a match of one of the two patterns; the transformed content is the same sequence of
  pieces with each match replaced by the expansion of its rule's template.
\<close>

theorem only_matches_altered:
  "\<exists>segs. list_all seg_ok segs \<and> content = concat (map seg_src segs) \<and>
          fix_content content = concat (map seg_out segs)"
proof (induction content rule: length_induct)
  case (1 x)
  from first_hit[OF headed_old, of x new_pattern] show ?case
  proof
    assume "nomatch old_pattern x"
    then have "fix_content x = rule_b x"
      by (simp add: fix_content_def rule_a_def nomatch_sub[OF headed_old])
    then show ?thesis using segments_b[of x] by simp
  next
    assume "\<exists>k m r. x = k @ m @ r \<and> rest_after old_pattern (m @ r) = Some r \<and>
        re_sub old_pattern new_pattern x =
          k @ expand new_pattern (takeWhile is_space (m @ r)) @ re_sub old_pattern new_pattern r"
    then obtain k m r where x: "x = k @ m @ r" and r: "rest_after old_pattern (m @ r) = Some r"
      and a: "rule_a x = k @ expand new_pattern (takeWhile is_space (m @ r)) @ rule_a r"
      unfolding rule_a_def by blast
    let ?g = "takeWhile is_space (m @ r)"
    have hm: "re_match old_pattern (m @ r) = Some (?g, r)"
      using r by (simp add: headed_match[OF headed_old])
    have w: "white ?g" using headed_white[OF headed_old r] .
    have "rule_b (k @ expand new_pattern ?g @ rule_a r) =
          rule_b k @ expand new_pattern ?g @ rule_b (rule_a r)"
      unfolding rule_b_def by (rule blocks_sub[OF headed_engine blocks_b_a w])
    then have f: "fix_content x = rule_b k @ expand new_pattern ?g @ fix_content r"
      using a by (simp add: fix_content_def)
    have "length r < length (m @ r)" using headed_consumes[OF headed_old r] .
    then have "length r < length x" using x by simp
    with 1 obtain segs_r where sr: "list_all seg_ok segs_r" "r = concat (map seg_src segs_r)"
      "fix_content r = concat (map seg_out segs_r)" by blast
    obtain segs_k where sk: "list_all seg_ok segs_k" "k = concat (map seg_src segs_k)"
      "rule_b k = concat (map seg_out segs_k)" using segments_b[of k] by blast
    have "re_match old_pattern (m @ []) = Some (?g, [])"
      by (rule match_local[OF headed_old hm])
    then have ok: "seg_ok (HitA ?g m)" by simp
    let ?segs = "segs_k @ HitA ?g m # segs_r"
    have "list_all seg_ok ?segs \<and> x = concat (map seg_src ?segs) \<and>
          fix_content x = concat (map seg_out ?segs)"
      using sr sk ok x f by simp
    then show ?thesis by blast
  qed
qed

text \<open>
  C10: a match attempt at a character that is not white space fails for both patterns, so
  the scan copies that character; and every match the patterns find begins with a
  non-empty run of white space (group 1) directly followed by the keyword text.
\<close>

theorem leading_white_space_required:
  "(\<not> is_space c \<longrightarrow>
      re_match old_pattern (c # s) = None \<and> re_match engine_old_pattern (c # s) = None \<and>
      re_sub old_pattern new_pattern (c # s) = c # re_sub old_pattern new_pattern s \<and>
      re_sub engine_old_pattern engine_new_pattern (c # s) =
        c # re_sub engine_old_pattern engine_new_pattern s) \<and>
   (re_match old_pattern t = Some (g, r) \<longrightarrow>
      g \<noteq> [] \<and> list_all is_space g \<and> (\<exists>m. t = g @ str ''match env_result {'' @ m @ r)) \<and>
   (re_match engine_old_pattern t = Some (g, r) \<longrightarrow>
      g \<noteq> [] \<and> list_all is_space g \<and> (\<exists>m. t = g @ str ''match engine_result {'' @ m @ r))"
proof -
  have shape: "g \<noteq> [] \<and> list_all is_space g \<and> (\<exists>m. s = g @ kw @ m @ r)"
    if h: "headed p" and d: "drop 3 p = Lits kw # q" and m: "re_match p s = Some (g, r)"
    for p kw q s
  proof -
    from m have g: "g = takeWhile is_space s" and r: "rest_after p s = Some r"
      by (auto simp: headed_match[OF h])
    from r have w: "white g" using headed_white[OF h] g by simp
    from r have "rest_after (Lits kw # q) (dropWhile is_space s) = Some r"
      by (auto simp: headed_rest[OF h] d split: if_splits)
    then obtain s' where s': "dropWhile is_space s = kw @ s'" "rest_after q s' = Some r"
      by (auto split: option.splits simp: strip_prefix_Some)
    then obtain m where "s' = m @ r" using rest_after_suffix by blast
    with s' g have "s = g @ kw @ m @ r"
      by (metis takeWhile_dropWhile_id)
    with w show ?thesis by (auto simp: white_def)
  qed
  have none: "re_match p (c # s) = None" if "headed p" "\<not> is_space c" for p
    using that by (simp add: headed_match headed_rest)
  have copy: "re_sub p t (c # s) = c # re_sub p t s" if "headed p" "\<not> is_space c" for p t
    using that by (simp add: headed_sub_Cons headed_rest)
  have da: "drop 3 old_pattern = Lits (str ''match env_result {'') # drop 4 old_pattern"
    by (simp add: old_pattern_def)
  have db: "drop 3 engine_old_pattern = Lits (str ''match engine_result {'') # drop 4 engine_old_pattern"
    by (simp add: engine_old_pattern_def)
  show ?thesis
    using none[OF headed_old] none[OF headed_engine] copy[OF headed_old] copy[OF headed_engine]
      shape[OF headed_old da] shape[OF headed_engine db]
    by blast
qed

theorem leading_white_space_required_witness:
  "re_match old_pattern sample_a = Some ([10, 32, 32], []) \<and>
   sample_a = [10, 32, 32] @ sample_bare \<and>
   re_match old_pattern sample_bare = None \<and>
   fix_content sample_bare = sample_bare \<and>
   re_match engine_old_pattern sample_b = Some ([32], [])"
proof -
  obtain s where s: "sample_bare = 109 # s" by (simp add: sample_bare_def str_def)
  have n: "\<not> is_space 109" by (simp add: is_space_def)
  from leading_white_space_required[of 109 s sample_a "[10, 32, 32]" "[]"] n s
  have "re_match old_pattern sample_bare = None" by simp
  then show ?thesis using match_sample_a match_sample_b fix_bare bare_shape by simp
qed

end
